theory Spec2Isabelle
  imports Main
begin

section \<open>Dense arrays\<close>

text \<open>
  The module \<^verbatim>\<open>scipy/linalg/special_matrices.py\<close> builds dense matrices out of numpy
  primitives. An array is its shape and its elements in row-major order, as numpy stores a
  C-contiguous array. The element type is a type parameter: Python integers are \<open>int\<close>,
  a fixed-width numpy integer is a word type (the theorems about them need only the ring
  laws), and a float array that may hold infinities has elements of the type \<open>ieee\<close>
  below. A boolean mask is held by its numeric values (numpy compares \<open>True\<close> equal to
  \<open>1\<close> and \<open>False\<close> equal to \<open>0\<close>, and uses these values in arithmetic).
\<close>

record 'a ndarray =
  shape :: "nat list"
  data :: "'a list"

datatype error =
    ValueError_power_of_2
  | ValueError_dimension "nat list"
  | ValueError_numpy
  | IndexError
  | TypeError

definition wf :: "'a ndarray \<Rightarrow> bool" where
  "wf A \<longleftrightarrow> length (data A) = prod_list (shape A)"

definition ndim :: "'a ndarray \<Rightarrow> nat" where
  "ndim A = length (shape A)"

text \<open>\<open>item A i j\<close> is \<^verbatim>\<open>A[i, j]\<close> of a two-dimensional array, for indices in range.\<close>

definition item :: "'a ndarray \<Rightarrow> nat \<Rightarrow> nat \<Rightarrow> 'a" where
  "item A i j = data A ! (i * (shape A ! 1) + j)"

text \<open>\<^verbatim>\<open>np.arange(N)\<close>: the integers from 0 up to \<open>N\<close>, none when \<open>N \<le> 0\<close>.\<close>

definition arange :: "int \<Rightarrow> int ndarray" where
  "arange N = \<lparr>shape = [nat N], data = map int [0..<nat N]\<rparr>"

text \<open>\<^verbatim>\<open>np.subtract.outer(a, b)\<close>: shape \<open>a.shape + b.shape\<close>, every element of \<open>a\<close>
  minus every element of \<open>b\<close>.\<close>

definition subtract_outer :: "('a::minus) ndarray \<Rightarrow> 'a ndarray \<Rightarrow> 'a ndarray" where
  "subtract_outer a b =
     \<lparr>shape = shape a @ shape b,
      data = concat (map (\<lambda>x. map (\<lambda>y. x - y) (data b)) (data a))\<rparr>"

text \<open>\<^verbatim>\<open>np.greater_equal(A, s)\<close> against a scalar; the truth value is held as 0 or 1.\<close>

definition greater_equal :: "int ndarray \<Rightarrow> int \<Rightarrow> ('a::zero_neq_one) ndarray" where
  "greater_equal A s = \<lparr>shape = shape A, data = map (\<lambda>v. of_bool (v \<ge> s)) (data A)\<rparr>"

text \<open>\<^verbatim>\<open>m.astype(dtype)\<close> of a mask: the values 0 and 1 exist in every numeric dtype,
  so the conversion keeps them.\<close>

definition astype :: "'a ndarray \<Rightarrow> 'd \<Rightarrow> 'a ndarray" where
  "astype m dtype = m"

section \<open>tri\<close>

text \<open>
  The second positional argument of \<^verbatim>\<open>tri\<close> is \<^verbatim>\<open>None\<close>, a size, or (legacy) a
  dtype string.
\<close>

datatype 'd m_arg = M_None | M_int int | M_str 'd

definition tri :: "int \<Rightarrow> 'd m_arg \<Rightarrow> int \<Rightarrow> 'd option \<Rightarrow> ('a::zero_neq_one) ndarray" where
  "tri N M k dtype =
     (let M1 = (case M of M_None \<Rightarrow> M_int N | _ \<Rightarrow> M);
          (dtype1, M2) = (case M1 of M_str d \<Rightarrow> (Some d, N)
                                   | M_int v \<Rightarrow> (dtype, v)
                                   | M_None \<Rightarrow> (dtype, N));
          m = greater_equal (subtract_outer (arange N) (arange M2)) (- k)
      in (case dtype1 of None \<Rightarrow> m | Some d \<Rightarrow> astype m d))"

section \<open>Broadcasting arithmetic\<close>

text \<open>
  Row-major index arithmetic: \<open>unravel s k\<close> is the multi-index of the flat position
  \<open>k\<close> in an array of shape \<open>s\<close>, and \<open>ravel_index s is\<close> the flat position of the multi-index \<open>is\<close>.
\<close>

fun unravel :: "nat list \<Rightarrow> nat \<Rightarrow> nat list" where
  "unravel [] k = []"
| "unravel (d # ds) k = (k div prod_list ds) # unravel ds (k mod prod_list ds)"

fun ravel_index :: "nat list \<Rightarrow> nat list \<Rightarrow> nat" where
  "ravel_index (d # ds) (i # is) = i * prod_list ds + ravel_index ds is"
| "ravel_index _ _ = 0"

text \<open>
  numpy's broadcasting rule: shapes are aligned at the right, the shorter one padded with
  ones on the left; two extents agree when they are equal or one of them is 1, and an
  axis of extent 1 is read at index 0 throughout.
\<close>

fun bdims :: "nat list \<Rightarrow> nat list \<Rightarrow> nat list option" where
  "bdims [] [] = Some []"
| "bdims (x # xs) (y # ys) =
     (if x = y \<or> y = 1 then map_option ((#) x) (bdims xs ys)
      else if x = 1 then map_option ((#) y) (bdims xs ys)
      else None)"
| "bdims _ _ = None"

definition pad_shape :: "nat \<Rightarrow> nat list \<Rightarrow> nat list" where
  "pad_shape n s = replicate (n - length s) 1 @ s"

definition broadcast_shapes :: "nat list \<Rightarrow> nat list \<Rightarrow> nat list option" where
  "broadcast_shapes s t =
     (let n = max (length s) (length t) in bdims (pad_shape n s) (pad_shape n t))"

definition broadcast_to :: "nat list \<Rightarrow> 'a ndarray \<Rightarrow> 'a ndarray" where
  "broadcast_to rs A =
     (let ss = pad_shape (length rs) (shape A)
      in \<lparr>shape = rs,
          data = map (\<lambda>k. data A ! ravel_index ss
                              (map2 (\<lambda>d i. if d = 1 then 0 else i) ss (unravel rs k)))
                     [0..<prod_list rs]\<rparr>)"

text \<open>An elementwise binary operation of two arrays; shapes that do not broadcast raise
  numpy's \<^verbatim>\<open>ValueError\<close>.\<close>

definition binop :: "('a \<Rightarrow> 'b \<Rightarrow> 'c) \<Rightarrow> 'a ndarray \<Rightarrow> 'b ndarray \<Rightarrow> error + 'c ndarray" where
  "binop f A B =
     (case broadcast_shapes (shape A) (shape B) of
        None \<Rightarrow> Inl ValueError_numpy
      | Some rs \<Rightarrow>
          Inr \<lparr>shape = rs,
               data = map2 f (data (broadcast_to rs A)) (data (broadcast_to rs B))\<rparr>)"

definition multiply :: "('a::times) ndarray \<Rightarrow> 'a ndarray \<Rightarrow> error + 'a ndarray" where
  "multiply = binop (*)"

definition add :: "('a::plus) ndarray \<Rightarrow> 'a ndarray \<Rightarrow> error + 'a ndarray" where
  "add = binop (+)"

definition subtract :: "('a::minus) ndarray \<Rightarrow> 'a ndarray \<Rightarrow> error + 'a ndarray" where
  "subtract = binop (-)"

text \<open>A Python scalar in an array expression is a zero-dimensional array.\<close>

definition scalar :: "'a \<Rightarrow> 'a ndarray" where
  "scalar x = \<lparr>shape = [], data = [x]\<rparr>"

definition and_then :: "error + 'a \<Rightarrow> ('a \<Rightarrow> error + 'b) \<Rightarrow> error + 'b" where
  "and_then r f = (case r of Inl e \<Rightarrow> Inl e | Inr v \<Rightarrow> f v)"

section \<open>tril and triu\<close>

text \<open>
  \<^verbatim>\<open>m.shape[0]\<close> and \<^verbatim>\<open>m.shape[1]\<close> raise \<^verbatim>\<open>IndexError\<close> on an array of fewer than
  two dimensions. The dtype handed to \<^verbatim>\<open>tri\<close> is that of \<open>m\<close>, which is the element
  type of the model.
\<close>

definition tril :: "('a::{zero_neq_one,times}) ndarray \<Rightarrow> int \<Rightarrow> error + 'a ndarray" where
  "tril m k =
     (if ndim m < 2 then Inl IndexError
      else multiply (tri (int (shape m ! 0)) (M_int (int (shape m ! 1))) k (Some ())) m)"

definition triu :: "('a::{zero_neq_one,times,minus}) ndarray \<Rightarrow> int \<Rightarrow> error + 'a ndarray" where
  "triu m k =
     (if ndim m < 2 then Inl IndexError
      else and_then
             (subtract (scalar 1) (tri (int (shape m ! 0)) (M_int (int (shape m ! 1))) (k - 1) (Some ())))
             (\<lambda>c. multiply c m))"

section \<open>Slices, index grids and gathering\<close>

text \<open>\<^verbatim>\<open>np.asarray(c).ravel()\<close>: the elements in row-major order as a one-dimensional array.\<close>

definition ravel :: "'a ndarray \<Rightarrow> 'a ndarray" where
  "ravel A = \<lparr>shape = [length (data A)], data = data A\<rparr>"

text \<open>\<^verbatim>\<open>len(c)\<close> is the extent of the first axis; it is applied to raveled arrays only.\<close>

definition len :: "'a ndarray \<Rightarrow> nat" where
  "len A = (case shape A of [] \<Rightarrow> 0 | d # _ \<Rightarrow> d)"

text \<open>\<^verbatim>\<open>range(start, stop, step)\<close> for a step other than zero.\<close>

definition py_range :: "int \<Rightarrow> int \<Rightarrow> int \<Rightarrow> int list" where
  "py_range start stop step =
     (let n = (if 0 < step then (if start < stop then (stop - start - 1) div step + 1 else 0)
               else (if stop < start then (start - stop - 1) div (- step) + 1 else 0))
      in map (\<lambda>i. start + int i * step) [0..<nat n])"

text \<open>
  A slice \<^verbatim>\<open>xs[start:stop:step]\<close> of a one-dimensional array: absent and negative
  bounds are adjusted and clipped to the length as Python does, then the elements at
  \<^verbatim>\<open>range(start, stop, step)\<close> are taken.
\<close>

definition slice_bound :: "int option \<Rightarrow> int \<Rightarrow> int \<Rightarrow> int \<Rightarrow> int \<Rightarrow> int" where
  "slice_bound b dflt lower upper n =
     (case b of None \<Rightarrow> dflt
      | Some s \<Rightarrow> if s < 0 then max (s + n) lower else min s upper)"

definition getslice :: "'a ndarray \<Rightarrow> int option \<Rightarrow> int option \<Rightarrow> int \<Rightarrow> 'a ndarray" where
  "getslice xs start stop step =
     (let n = int (length (data xs));
          lower = (if step < 0 then - 1 else 0);
          upper = (if step < 0 then n - 1 else n);
          start1 = slice_bound start (if step < 0 then upper else lower) lower upper n;
          stop1 = slice_bound stop (if step < 0 then lower else upper) lower upper n;
          ixs = py_range start1 stop1 step
      in \<lparr>shape = [length ixs], data = map (\<lambda>i. data xs ! nat i) ixs\<rparr>)"

text \<open>\<^verbatim>\<open>np.concatenate(arrs, axis)\<close>: the arrays agree on every extent but the one of the
  axis; an empty sequence, or shapes that do not agree, raise \<^verbatim>\<open>ValueError\<close>.\<close>

definition chunk :: "nat \<Rightarrow> nat \<Rightarrow> 'a list \<Rightarrow> 'a list" where
  "chunk n i xs = take n (drop (i * n) xs)"

definition concatenate :: "'a ndarray list \<Rightarrow> nat \<Rightarrow> error + 'a ndarray" where
  "concatenate arrs axis =
     (case arrs of
        [] \<Rightarrow> Inl ValueError_numpy
      | A # _ \<Rightarrow>
          if axis < ndim A \<and>
             (\<forall>B \<in> set arrs. ndim B = ndim A \<and> take axis (shape B) = take axis (shape A) \<and>
                              drop (Suc axis) (shape B) = drop (Suc axis) (shape A))
          then Inr \<lparr>shape = (shape A)[axis := sum_list (map (\<lambda>B. shape B ! axis) arrs)],
                    data = concat (map (\<lambda>outer.
                               concat (map (\<lambda>B. chunk (prod_list (drop axis (shape B))) outer (data B)) arrs))
                             [0..<prod_list (take axis (shape A))])\<rparr>
          else Inl ValueError_numpy)"

text \<open>\<^verbatim>\<open>np.ogrid[a0:a1:as, b0:b1:bs]\<close>: an open grid, a column of shape \<open>(n, 1)\<close> and a
  row of shape \<open>(1, m)\<close>.\<close>

definition ogrid :: "int \<times> int \<times> int \<Rightarrow> int \<times> int \<times> int \<Rightarrow> int ndarray \<times> int ndarray" where
  "ogrid s1 s2 =
     (case (s1, s2) of ((a0, a1, as), (b0, b1, bs)) \<Rightarrow>
        (let a = py_range a0 a1 as; b = py_range b0 b1 bs
         in (\<lparr>shape = [length a, 1], data = a\<rparr>, \<lparr>shape = [1, length b], data = b\<rparr>)))"

text \<open>\<^verbatim>\<open>vals[indx]\<close> for a one-dimensional \<open>vals\<close> and an integer index array: a negative
  index counts from the end, an index out of range raises \<^verbatim>\<open>IndexError\<close>.\<close>

definition getitem :: "'a ndarray \<Rightarrow> int ndarray \<Rightarrow> error + 'a ndarray" where
  "getitem vals indx =
     (let n = int (length (data vals))
      in if \<forall>i \<in> set (data indx). - n \<le> i \<and> i < n
         then Inr \<lparr>shape = shape indx,
                   data = map (\<lambda>i. data vals ! nat (if i < 0 then i + n else i)) (data indx)\<rparr>
         else Inl IndexError)"

definition conjugate :: "('a \<Rightarrow> 'a) \<Rightarrow> 'a ndarray \<Rightarrow> 'a ndarray" where
  "conjugate cnj A = \<lparr>shape = shape A, data = map cnj (data A)\<rparr>"

definition zeros_like :: "('a::zero) ndarray \<Rightarrow> 'a ndarray" where
  "zeros_like A = \<lparr>shape = shape A, data = map (\<lambda>_. 0) (data A)\<rparr>"

section \<open>toeplitz and hankel\<close>

text \<open>The conjugation of the element type is a parameter of \<^verbatim>\<open>toeplitz\<close> (the identity
  on real elements); it is used only when \<open>r\<close> is absent.\<close>

definition toeplitz :: "('a \<Rightarrow> 'a) \<Rightarrow> 'a ndarray \<Rightarrow> 'a ndarray option \<Rightarrow> error + 'a ndarray" where
  "toeplitz cnj c0 r0 =
     (let c = ravel c0;
          r = (case r0 of None \<Rightarrow> conjugate cnj c | Some r1 \<Rightarrow> ravel r1)
      in and_then (concatenate [getslice r (Some (- 1)) (Some 0) (- 1), c] 0) (\<lambda>vals.
           case ogrid (0, int (len c), 1) (int (len r) - 1, - 1, - 1) of (a, b) \<Rightarrow>
             and_then (add a b) (\<lambda>indx. getitem vals indx)))"

definition hankel :: "('a::zero) ndarray \<Rightarrow> 'a ndarray option \<Rightarrow> error + 'a ndarray" where
  "hankel c0 r0 =
     (let c = ravel c0;
          r = (case r0 of None \<Rightarrow> zeros_like c | Some r1 \<Rightarrow> ravel r1)
      in and_then (concatenate [c, getslice r (Some 1) None 1] 0) (\<lambda>vals.
           case ogrid (0, int (len c), 1) (0, int (len r), 1) of (a, b) \<Rightarrow>
             and_then (add a b) (\<lambda>indx. getitem vals indx)))"

section \<open>hadamard\<close>


definition atleast_2d :: "'a ndarray \<Rightarrow> 'a ndarray" where
  "atleast_2d A =
     (if ndim A = 0 then A\<lparr>shape := [1, 1]\<rparr>
      else if ndim A = 1 then A\<lparr>shape := 1 # shape A\<rparr>
      else A)"













section \<open>kron\<close>

text \<open>\<^verbatim>\<open>np.outer(a, b)\<close> flattens both arguments: the result has shape
  \<open>(a.size, b.size)\<close> and holds every product.\<close>

definition outer :: "('a::times) ndarray \<Rightarrow> 'a ndarray \<Rightarrow> 'a ndarray" where
  "outer a b =
     \<lparr>shape = [length (data a), length (data b)],
      data = concat (map (\<lambda>x. map (\<lambda>y. x * y) (data b)) (data a))\<rparr>"

text \<open>\<^verbatim>\<open>o.reshape(newshape)\<close> keeps the row-major elements; a shape of another size raises
  \<^verbatim>\<open>ValueError\<close>.\<close>

definition reshape :: "'a ndarray \<Rightarrow> nat list \<Rightarrow> error + 'a ndarray" where
  "reshape A newshape =
     (if prod_list newshape = length (data A) then Inr (A\<lparr>shape := newshape\<rparr>)
      else Inl ValueError_numpy)"

text \<open>An array handed to \<^verbatim>\<open>np.concatenate\<close> as its sequence argument is iterated along
  its first axis; a zero-dimensional array cannot be iterated.\<close>

definition unstack :: "'a ndarray \<Rightarrow> error + 'a ndarray list" where
  "unstack A =
     (case shape A of
        [] \<Rightarrow> Inl TypeError
      | d # ds \<Rightarrow> Inr (map (\<lambda>i. \<lparr>shape = ds, data = chunk (prod_list ds) i (data A)\<rparr>) [0..<d]))"

text \<open>
  The arrays of the model are always in row-major contiguous layout, so the two
  \<^verbatim>\<open>reshape(a, a.shape)\<close> normalisations of non-contiguous arguments leave them as they
  are.
\<close>

definition kron :: "('a::times) ndarray \<Rightarrow> 'a ndarray \<Rightarrow> error + 'a ndarray" where
  "kron a b =
     and_then (reshape (outer a b) (shape a @ shape b)) (\<lambda>o4.
       and_then (unstack o4) (\<lambda>blocks.
         and_then (concatenate blocks 1) (\<lambda>o3.
           and_then (unstack o3) (\<lambda>rows. concatenate rows 1))))"

section \<open>Block-diagonal assembly\<close>

text \<open>
  \<^verbatim>\<open>block_diag\<close> reads the dtype of its first block, so its arguments and its result
  carry a dtype tag next to the array. Storing a value into an array of dtype \<open>d\<close> converts
  it; the conversion \<open>conv d\<close> is a parameter of the model.
\<close>

datatype dtype = Bool_dtype | Int_dtype | Float_dtype | Complex_dtype

record 'a typed =
  dtype_of :: dtype
  array_of :: "'a ndarray"

text \<open>The conversion of integer values: to bool a non-zero value is \<open>True\<close> (1), to int
  the value is kept, and to float or complex an integer of magnitude up to \<open>2^53\<close> is kept
  (a larger one is rounded by numpy, which this conversion does not follow; it is applied
  to small integers only).\<close>

fun astype_int :: "dtype \<Rightarrow> int \<Rightarrow> int" where
  "astype_int Bool_dtype x = (if x = 0 then 0 else 1)"
| "astype_int _ x = x"

definition zeros :: "nat list \<Rightarrow> ('a::zero) ndarray" where
  "zeros s = \<lparr>shape = s, data = replicate (prod_list s) 0\<rparr>"

text \<open>\<^verbatim>\<open>np.atleast_2d([])\<close>, the block that stands in for an empty argument list: the empty
  list is a float array of shape \<open>(0)\<close>.\<close>

definition empty_list_array :: "'a typed" where
  "empty_list_array = \<lparr>dtype_of = Float_dtype, array_of = \<lparr>shape = [0], data = []\<rparr>\<rparr>"

text \<open>
  \<^verbatim>\<open>out[r:r_stop, c:c_stop] = B\<close> on a two-dimensional \<open>out\<close> with bounds that are not
  negative: the slices are clipped to the extents of \<open>out\<close>, \<open>B\<close> must broadcast to the
  shape of the region (else \<^verbatim>\<open>ValueError\<close>), and its converted elements are stored.
\<close>

definition setitem_block ::
  "('a \<Rightarrow> 'a) \<Rightarrow> 'a ndarray \<Rightarrow> nat \<Rightarrow> nat \<Rightarrow> nat \<Rightarrow> nat \<Rightarrow> 'a ndarray \<Rightarrow> error + 'a ndarray" where
  "setitem_block conv out r r_stop c c_stop B =
     (let R = shape out ! 0; C = shape out ! 1;
          r0 = min r R; r1 = max r0 (min r_stop R);
          c0 = min c C; c1 = max c0 (min c_stop C);
          region = [r1 - r0, c1 - c0]
      in if broadcast_shapes (shape B) region = Some region
         then let V = broadcast_to region B
              in Inr (out\<lparr>data := map (\<lambda>k. let i = k div C; j = k mod C
                                            in if r0 \<le> i \<and> i < r1 \<and> c0 \<le> j \<and> j < c1
                                               then conv (item V (i - r0) (j - c0))
                                               else data out ! k)
                                      [0..<length (data out)]\<rparr>)
         else Inl ValueError_numpy)"

text \<open>The placement loop over \<^verbatim>\<open>enumerate(shapes)\<close>, with the state \<open>(out, r, c)\<close>.\<close>

fun place :: "('a \<Rightarrow> 'a) \<Rightarrow> 'a ndarray list \<Rightarrow> 'a ndarray \<Rightarrow> nat \<Rightarrow> nat \<Rightarrow> error + 'a ndarray" where
  "place conv [] out r c = Inr out"
| "place conv (B # bs) out r c =
     (let rr = shape B ! 0; cc = shape B ! 1
      in and_then (setitem_block conv out r (r + rr) c (c + cc) B)
           (\<lambda>out1. place conv bs out1 (r + rr) (c + cc)))"

definition block_diag :: "(dtype \<Rightarrow> 'a \<Rightarrow> 'a) \<Rightarrow> ('a::zero) typed list \<Rightarrow> error + 'a typed" where
  "block_diag conv args =
     (let arrs0 = (if args = [] then [empty_list_array] else args);
          arrs = map (\<lambda>a. a\<lparr>array_of := atleast_2d (array_of a)\<rparr>) arrs0;
          bad_args = filter (\<lambda>k. ndim (array_of (arrs ! k)) > 2) [0..<length arrs]
      in if bad_args \<noteq> [] then Inl (ValueError_dimension bad_args)
         else let shapes = map (\<lambda>a. shape (array_of a)) arrs
              in case arrs of
                   [] \<Rightarrow> Inl IndexError
                 | first # _ \<Rightarrow>
                     let out = zeros [sum_list (map (\<lambda>s. s ! 0) shapes), sum_list (map (\<lambda>s. s ! 1) shapes)]
                     in and_then (place (conv (dtype_of first)) (map array_of arrs) out 0 0)
                          (\<lambda>res. Inr \<lparr>dtype_of = dtype_of first, array_of = res\<rparr>))"

text \<open>
  The reading of the result: \<open>block_at bs r c x y\<close> is the element of the block that
  covers position \<open>(x, y)\<close> when the blocks \<open>bs\<close> are laid out along the diagonal from
  offset \<open>(r, c)\<close>, and \<open>None\<close> when no block covers it.
\<close>

definition nrows :: "'a ndarray \<Rightarrow> nat" where
  "nrows B = shape B ! 0"

definition ncols :: "'a ndarray \<Rightarrow> nat" where
  "ncols B = shape B ! 1"

fun block_at :: "'a ndarray list \<Rightarrow> nat \<Rightarrow> nat \<Rightarrow> nat \<Rightarrow> nat \<Rightarrow> 'a option" where
  "block_at [] r c x y = None"
| "block_at (B # bs) r c x y =
     (if r \<le> x \<and> x < r + nrows B \<and> c \<le> y \<and> y < c + ncols B
      then Some (item B (x - r) (y - c))
      else block_at bs (r + nrows B) (c + ncols B) x y)"

text \<open>The blocks as the list comprehension normalises them, and the cumulative offsets
  of block \<open>i\<close>: the rows and columns of the blocks before it.\<close>

definition blocks_2d :: "'a typed list \<Rightarrow> 'a ndarray list" where
  "blocks_2d args = map (\<lambda>a. atleast_2d (array_of a)) args"

definition row_offset :: "'a ndarray list \<Rightarrow> nat \<Rightarrow> nat" where
  "row_offset bs i = sum_list (map nrows (take i bs))"

definition col_offset :: "'a ndarray list \<Rightarrow> nat \<Rightarrow> nat" where
  "col_offset bs i = sum_list (map ncols (take i bs))"

section \<open>Floating-point elements\<close>

text \<open>
  A float array may hold infinities and nan. Its elements are finite values, \<open>+inf\<close>,
  \<open>-inf\<close> and \<open>nan\<close>, with the IEEE 754 rules for the special values: \<open>nan\<close> is
  absorbing, \<open>0 * inf\<close> and \<open>inf - inf\<close> are \<open>nan\<close>. Finite values are computed
  exactly; the mask arithmetic of \<^verbatim>\<open>tril\<close> and \<^verbatim>\<open>triu\<close> multiplies by 0 and 1 and
  adds 0 only, which floating-point arithmetic does without rounding.
\<close>

datatype 'a ieee = Finite 'a | PosInf | NegInf | NaN

definition signed_inf :: "('a::linordered_idom) \<Rightarrow> 'a ieee" where
  "signed_inf a = (if a = 0 then NaN else if 0 < a then PosInf else NegInf)"

instantiation ieee :: (linordered_idom) "{zero_neq_one, plus, uminus, minus, times}"
begin

definition zero_ieee :: "'a ieee" where
  "zero_ieee = Finite 0"

definition one_ieee :: "'a ieee" where
  "one_ieee = Finite 1"

fun plus_ieee :: "'a ieee \<Rightarrow> 'a ieee \<Rightarrow> 'a ieee" where
  "plus_ieee NaN y = NaN"
| "plus_ieee x NaN = NaN"
| "plus_ieee (Finite a) (Finite b) = Finite (a + b)"
| "plus_ieee PosInf NegInf = NaN"
| "plus_ieee NegInf PosInf = NaN"
| "plus_ieee PosInf y = PosInf"
| "plus_ieee x PosInf = PosInf"
| "plus_ieee NegInf y = NegInf"
| "plus_ieee x NegInf = NegInf"

fun uminus_ieee :: "'a ieee \<Rightarrow> 'a ieee" where
  "uminus_ieee (Finite a) = Finite (- a)"
| "uminus_ieee PosInf = NegInf"
| "uminus_ieee NegInf = PosInf"
| "uminus_ieee NaN = NaN"

definition minus_ieee :: "'a ieee \<Rightarrow> 'a ieee \<Rightarrow> 'a ieee" where
  "minus_ieee x y = x + (- y)"

fun times_ieee :: "'a ieee \<Rightarrow> 'a ieee \<Rightarrow> 'a ieee" where
  "times_ieee NaN y = NaN"
| "times_ieee x NaN = NaN"
| "times_ieee (Finite a) (Finite b) = Finite (a * b)"
| "times_ieee (Finite a) PosInf = signed_inf a"
| "times_ieee (Finite a) NegInf = signed_inf (- a)"
| "times_ieee PosInf (Finite b) = signed_inf b"
| "times_ieee NegInf (Finite b) = signed_inf (- b)"
| "times_ieee PosInf PosInf = PosInf"
| "times_ieee NegInf NegInf = PosInf"
| "times_ieee PosInf NegInf = NegInf"
| "times_ieee NegInf PosInf = NegInf"

instance
  by standard (simp add: zero_ieee_def one_ieee_def)

end

section \<open>Row-major indexing\<close>

lemma length_concat_uniform:
  "(\<And>r. r \<in> set rows \<Longrightarrow> length r = m) \<Longrightarrow> length (concat rows) = length rows * m"
  by (induction rows) auto

lemma nth_concat_uniform:
  "(\<And>r. r \<in> set rows \<Longrightarrow> length r = m) \<Longrightarrow> i < length rows \<Longrightarrow> j < m \<Longrightarrow>
   concat rows ! (i * m + j) = rows ! i ! j"
proof (induction rows arbitrary: i)
  case Nil
  then show ?case by simp
next
  case (Cons r rows)
  have len: "length r = m" using Cons.prems(1) by simp
  show ?case
  proof (cases i)
    case 0
    then show ?thesis using len Cons.prems(3) by (simp add: nth_append)
  next
    case (Suc i')
    have "concat rows ! (i' * m + j) = rows ! i' ! j"
      using Cons.IH [of i'] Cons.prems Suc by simp
    then show ?thesis using Suc len by (simp add: nth_append add.assoc)
  qed
qed

lemma subtract_outer_item:
  assumes "shape a = [n]" "shape b = [m]" "length (data a) = n" "length (data b) = m"
    and "i < n" "j < m"
  shows "item (subtract_outer a b) i j = data a ! i - data b ! j"
proof -
  let ?rows = "map (\<lambda>x. map (\<lambda>y. x - y) (data b)) (data a)"
  have "concat ?rows ! (i * m + j) = ?rows ! i ! j"
    by (rule nth_concat_uniform) (use assms in auto)
  then show ?thesis using assms by (simp add: item_def subtract_outer_def)
qed

lemma subtract_outer_length:
  "length (data (subtract_outer a b)) = length (data a) * length (data b)"
proof -
  have "length (concat (map (\<lambda>x. map (\<lambda>y. x - y) (data b)) (data a)))
        = length (map (\<lambda>x. map (\<lambda>y. x - y) (data b)) (data a)) * length (data b)"
    by (rule length_concat_uniform) auto
  then show ?thesis by (simp add: subtract_outer_def)
qed

lemma tri_M_int:
  "tri N (M_int M) k dtype = greater_equal (subtract_outer (arange N) (arange M)) (- k)"
  by (simp add: tri_def astype_def Let_def split: option.split)

lemma tri_shape: "shape (tri N (M_int M) k dtype :: ('a::zero_neq_one) ndarray) = [nat N, nat M]"
  by (simp add: tri_M_int greater_equal_def subtract_outer_def arange_def)

lemma tri_length:
  "length (data (tri N (M_int M) k dtype :: ('a::zero_neq_one) ndarray)) = nat N * nat M"
  using subtract_outer_length [of "arange N" "arange M"]
  by (simp add: tri_M_int greater_equal_def arange_def)

lemma tri_item:
  assumes "i < nat N" "j < nat M"
  shows "item (tri N (M_int M) k dtype) i j = (of_bool (int j \<le> int i + k) :: 'a::zero_neq_one)"
proof -
  let ?S = "subtract_outer (arange N) (arange M)"
  have s: "item ?S i j = int i - int j"
    using subtract_outer_item [of "arange N" "nat N" "arange M" "nat M" i j] assms
    by (simp add: arange_def)
  have len: "length (data ?S) = nat N * nat M"
    using subtract_outer_length [of "arange N" "arange M"] by (simp add: arange_def)
  have sh: "shape ?S = [nat N, nat M]" by (simp add: subtract_outer_def arange_def)
  have "i * nat M + j < nat N * nat M"
  proof -
    have "i * nat M + j < (i + 1) * nat M" using assms by simp
    also have "\<dots> \<le> nat N * nat M" using assms by (intro mult_le_mono1) simp
    finally show ?thesis .
  qed
  then have "item (greater_equal ?S (- k)) i j = (of_bool (item ?S i j \<ge> - k) :: 'a)"
    using len sh by (simp add: item_def greater_equal_def)
  moreover have "(int i - int j \<ge> - k) = (int j \<le> int i + k)" by auto
  ultimately show ?thesis using s by (simp add: tri_M_int)
qed

text \<open>
  C1 (as amended). For sizes \<open>N \<ge> 0\<close> and \<open>M \<ge> 0\<close> and every integer \<open>k\<close>, with or
  without a dtype, \<^verbatim>\<open>tri(N, M, k)\<close> has shape exactly \<open>(N, M)\<close> (and \<open>N * M\<close> elements),
  and its entry at \<open>[i, j]\<close> is 1 if and only if \<open>j \<le> i + k\<close> (that is \<open>i - j \<ge> -k\<close>:
  the ones lie at and below the \<open>k\<close>-th diagonal), and 0 otherwise.
\<close>

theorem tri_spec:
  assumes "0 \<le> N" "0 \<le> M"
  shows "shape (tri N (M_int M) k dtype :: ('a::zero_neq_one) ndarray) = [nat N, nat M] \<and>
         wf (tri N (M_int M) k dtype :: 'a ndarray) \<and>
         (i < nat N \<and> j < nat M \<longrightarrow>
            (item (tri N (M_int M) k dtype :: 'a ndarray) i j = 1 \<longleftrightarrow> int j \<le> int i + k) \<and>
            (item (tri N (M_int M) k dtype :: 'a ndarray) i j = 0 \<longleftrightarrow> \<not> int j \<le> int i + k))"
  using assms tri_item [of i N j M k dtype, where 'a = 'a]
  by (auto simp add: tri_shape tri_length wf_def)

theorem tri_spec_witness:
  "item (tri 3 (M_int 5) 2 (None :: unit option) :: int ndarray) 1 3 = 1 \<and>
   item (tri 3 (M_int 5) 2 (None :: unit option) :: int ndarray) 1 4 = 0 \<and>
   shape (tri 3 (M_int 5) 2 (None :: unit option) :: int ndarray) = [3, 5]"
proof -
  have "item (tri 3 (M_int 5) 2 (None :: unit option) :: int ndarray) 1 4 \<noteq> 1"
    using tri_spec [of 3 5 2 "None :: unit option" 1 4, where 'a = int] by simp
  then show ?thesis
    using tri_spec [of 3 5 2 "None :: unit option" 1 3, where 'a = int]
      tri_spec [of 3 5 2 "None :: unit option" 1 4, where 'a = int]
    by simp
qed

text \<open>
  The claim as first stated (entry 1 iff \<open>i \<le> j + k\<close>) fails: in \<^verbatim>\<open>tri(2, 2, 0)\<close> the
  entry at \<open>[0, 1]\<close> is 0 although \<open>0 \<le> 1 + 0\<close>.
\<close>

theorem tri_claim_counterexample:
  "\<not> (item (tri 2 (M_int 2) 0 (None :: unit option) :: int ndarray) 0 1 = 1
       \<longleftrightarrow> int 0 \<le> int 1 + 0)"
  by (simp add: tri_def greater_equal_def subtract_outer_def arange_def item_def
      upt_conv_Cons numeral_2_eq_2)

lemma prod_list_pos_if_lt: "(k::nat) < prod_list (d # ds) \<Longrightarrow> 0 < prod_list ds"
  by (cases "prod_list ds = 0") simp_all

lemma ravel_unravel: "k < prod_list s \<Longrightarrow> ravel_index s (unravel s k) = k"
proof (induction s arbitrary: k)
  case Nil
  then show ?case by simp
next
  case (Cons d ds)
  have "0 < prod_list ds" using Cons.prems by (rule prod_list_pos_if_lt)
  then have "k mod prod_list ds < prod_list ds" by simp
  then have "ravel_index ds (unravel ds (k mod prod_list ds)) = k mod prod_list ds"
    by (rule Cons.IH)
  then show ?case by simp
qed

lemma broadcast_same_index:
  "k < prod_list s \<Longrightarrow> map2 (\<lambda>d i. if d = Suc 0 then 0 else i) s (unravel s k) = unravel s k"
proof (induction s arbitrary: k)
  case Nil
  then show ?case by simp
next
  case (Cons d ds)
  have pos: "0 < prod_list ds" using Cons.prems by (rule prod_list_pos_if_lt)
  then have "k mod prod_list ds < prod_list ds" by simp
  then have ih: "map2 (\<lambda>d i. if d = Suc 0 then 0 else i) ds (unravel ds (k mod prod_list ds))
                 = unravel ds (k mod prod_list ds)"
    by (rule Cons.IH)
  have "d = Suc 0 \<Longrightarrow> k div prod_list ds = 0" using Cons.prems by simp
  then show ?case using ih by auto
qed

lemma broadcast_to_same:
  assumes "wf A"
  shows "broadcast_to (shape A) A = A"
proof -
  have "map (\<lambda>k. data A ! ravel_index (shape A)
                (map2 (\<lambda>d i. if d = Suc 0 then 0 else i) (shape A) (unravel (shape A) k)))
            [0..<prod_list (shape A)]
        = map (\<lambda>k. data A ! k) [0..<prod_list (shape A)]"
    by (rule map_cong) (simp_all add: broadcast_same_index ravel_unravel)
  also have "\<dots> = data A" using assms map_nth [of "data A"] by (simp add: wf_def)
  finally show ?thesis by (simp add: broadcast_to_def pad_shape_def)
qed

lemma bdims_same: "bdims s s = Some s"
  by (induction s) auto

lemma broadcast_shapes_same: "broadcast_shapes s s = Some s"
  by (simp add: broadcast_shapes_def pad_shape_def bdims_same)

lemma binop_same_shape:
  assumes "wf A" "wf B" "shape A = shape B"
  shows "binop f A B = Inr \<lparr>shape = shape A, data = map2 f (data A) (data B)\<rparr>"
  using assms broadcast_to_same [of A] broadcast_to_same [of B]
  by (simp add: binop_def broadcast_shapes_same)

lemma ravel_ones:
  "ravel_index (replicate n (Suc 0)) (map2 (\<lambda>d i. if d = Suc 0 then 0 else i) (replicate n (Suc 0)) xs) = 0"
proof (induction n arbitrary: xs)
  case 0
  then show ?case by simp
next
  case (Suc n)
  then show ?case by (cases xs) simp_all
qed

lemma broadcast_to_scalar:
  "broadcast_to rs (scalar x) = \<lparr>shape = rs, data = replicate (prod_list rs) x\<rparr>"
proof -
  have "map (\<lambda>k. [x] ! ravel_index (replicate (length rs) (Suc 0))
              (map2 (\<lambda>d i. if d = Suc 0 then 0 else i) (replicate (length rs) (Suc 0)) (unravel rs k)))
            [0..<prod_list rs] = map (\<lambda>k. x) [0..<prod_list rs]"
    by (rule map_cong) (simp_all add: ravel_ones)
  then show ?thesis
    by (simp add: broadcast_to_def pad_shape_def scalar_def map_replicate_const)
qed

lemma bdims_ones: "bdims (replicate (length s) (Suc 0)) s = Some s"
  by (induction s) auto

lemma broadcast_shapes_scalar: "broadcast_shapes [] s = Some s"
  by (simp add: broadcast_shapes_def pad_shape_def bdims_ones)

lemma scalar_shape: "shape (scalar x) = []"
  by (simp add: scalar_def)

lemma binop_scalar_left:
  assumes "wf B"
  shows "binop f (scalar x) B = Inr \<lparr>shape = shape B, data = map (f x) (data B)\<rparr>"
proof -
  have "map2 f (replicate (prod_list (shape B)) x) (data B) = map (f x) (data B)"
    using assms by (simp add: wf_def map2_map_map [symmetric] zip_replicate1 map_zip_map2 del: map2_map_map)
  then show ?thesis using assms broadcast_to_same [of B]
    by (simp add: binop_def broadcast_shapes_scalar broadcast_to_scalar scalar_shape)
qed

lemma tri_wf: "wf (tri N (M_int M) k dtype :: ('a::zero_neq_one) ndarray)"
  by (simp add: wf_def tri_shape tri_length)

lemma tri_bits:
  "x \<in> set (data (tri N (M_int M) k dtype :: ('a::zero_neq_one) ndarray)) \<Longrightarrow> x = 0 \<or> x = 1"
  by (auto simp add: tri_M_int greater_equal_def)

lemma tril_2d:
  fixes m :: "('a::{zero_neq_one,times}) ndarray"
  assumes "shape m = [n, c]" "wf m"
  shows "tril m k = Inr \<lparr>shape = [n, c],
           data = map2 (*) (data (tri (int n) (M_int (int c)) k (Some ()) :: 'a ndarray)) (data m)\<rparr>"
proof -
  let ?T = "tri (int n) (M_int (int c)) k (Some ()) :: 'a ndarray"
  have "shape ?T = shape m" using assms by (simp add: tri_shape)
  then have "multiply ?T m = Inr \<lparr>shape = shape ?T, data = map2 (*) (data ?T) (data m)\<rparr>"
    unfolding multiply_def using tri_wf assms(2) by (rule binop_same_shape [rotated 2])
  then show ?thesis using assms by (simp add: tril_def ndim_def tri_shape)
qed

lemma triu_2d:
  fixes m :: "('a::{zero_neq_one,times,minus}) ndarray"
  assumes "shape m = [n, c]" "wf m"
  shows "triu m k = Inr \<lparr>shape = [n, c],
           data = map2 (*) (map (\<lambda>v. 1 - v) (data (tri (int n) (M_int (int c)) (k - 1) (Some ()) :: 'a ndarray)))
                           (data m)\<rparr>"
proof -
  let ?T = "tri (int n) (M_int (int c)) (k - 1) (Some ()) :: 'a ndarray"
  let ?C = "\<lparr>shape = shape ?T, data = map ((-) 1) (data ?T)\<rparr>"
  have c: "subtract (scalar 1) ?T = Inr ?C"
    unfolding subtract_def using tri_wf by (rule binop_scalar_left)
  have wfC: "wf ?C" using tri_wf [of "int n" "int c" "k - 1" "Some ()", where 'a = 'a]
    by (simp add: wf_def)
  have "shape ?C = shape m" using assms by (simp add: tri_shape)
  then have "multiply ?C m = Inr \<lparr>shape = shape ?C, data = map2 (*) (data ?C) (data m)\<rparr>"
    unfolding multiply_def using wfC assms(2) by (rule binop_same_shape [rotated 2])
  then show ?thesis using assms c by (simp add: triu_def ndim_def tri_shape and_then_def)
qed

lemma mask_partition:
  fixes t :: "('a::ring_1) list"
  assumes "length t = length xs" "\<And>x. x \<in> set t \<Longrightarrow> x = 0 \<or> x = 1"
  shows "map2 (+) (map2 (*) t xs) (map2 (*) (map (\<lambda>v. 1 - v) t) xs) = xs"
  using assms
proof (induction t xs rule: list_induct2)
  case Nil
  then show ?case by simp
next
  case (Cons b t x xs)
  have "b = 0 \<or> b = 1" using Cons.prems by simp
  then have "b * x + (1 - b) * x = x" by auto
  moreover have "map2 (+) (map2 (*) t xs) (map2 (*) (map (\<lambda>v. 1 - v) t) xs) = xs"
    using Cons.IH Cons.prems by simp
  ultimately show ?case by simp
qed

lemma flat_index_lt: "i < n \<Longrightarrow> j < c \<Longrightarrow> i * c + j < n * (c::nat)"
proof -
  assume a: "i < n" "j < c"
  have "i * c + j < (i + 1) * c" using a by simp
  also have "\<dots> \<le> n * c" using a by (intro mult_le_mono1) simp
  finally show ?thesis .
qed

text \<open>
  Over a ring (Python integers, fixed-width integers with wrap-around), for every
  two-dimensional array \<open>m\<close>, \<^verbatim>\<open>tril(m, 0) + triu(m, 1)\<close> is \<open>m\<close> itself, element for
  element and with the same shape: the main diagonal goes to \<^verbatim>\<open>tril\<close> alone. Since
  \<^verbatim>\<open>triu(m, k)\<close> complements the mask of cutoff \<open>k - 1\<close>, both \<^verbatim>\<open>tril(m, 0)\<close> and
  \<^verbatim>\<open>triu(m, 0)\<close> keep the main diagonal of \<open>m\<close>.
\<close>

theorem tril_triu_partition:
  fixes m :: "('a::ring_1) ndarray"
  assumes "shape m = [n, c]" "wf m"
  shows "\<exists>L U U0. tril m 0 = Inr L \<and> triu m 1 = Inr U \<and> add L U = Inr m \<and>
           triu m 0 = Inr U0 \<and>
           (\<forall>i. i < n \<and> i < c \<longrightarrow> item L i i = item m i i \<and> item U0 i i = item m i i)"
proof -
  let ?Ta = "tri (int n) (M_int (int c)) 0 (Some ()) :: 'a ndarray"
  let ?Tb = "tri (int n) (M_int (int c)) (- 1) (Some ()) :: 'a ndarray"
  let ?L = "\<lparr>shape = [n, c], data = map2 (*) (data ?Ta) (data m)\<rparr>"
  let ?U = "\<lparr>shape = [n, c], data = map2 (*) (map (\<lambda>v. 1 - v) (data ?Ta)) (data m)\<rparr>"
  let ?V = "\<lparr>shape = [n, c], data = map2 (*) (map (\<lambda>v. 1 - v) (data ?Tb)) (data m)\<rparr>"
  have lenm: "length (data m) = n * c" using assms by (simp add: wf_def)
  have len0: "length (data ?Ta) = n * c" by (simp add: tri_length)
  have len1: "length (data ?Tb) = n * c" by (simp add: tri_length)
  have L: "tril m 0 = Inr ?L" using assms by (rule tril_2d)
  have U: "triu m 1 = Inr ?U" using triu_2d [OF assms, where k = 1] by simp
  have U0: "triu m 0 = Inr ?V" using triu_2d [OF assms, where k = 0] by simp
  have wfL: "wf ?L" and wfU: "wf ?U" using lenm len0 by (simp_all add: wf_def)
  have "add ?L ?U = Inr \<lparr>shape = shape ?L, data = map2 (+) (data ?L) (data ?U)\<rparr>"
    unfolding add_def using wfL wfU by (rule binop_same_shape) simp
  moreover have "map2 (+) (data ?L) (data ?U) = data m"
  proof -
    have "map2 (+) (map2 (*) (data ?Ta) (data m))
            (map2 (*) (map (\<lambda>v. 1 - v) (data ?Ta)) (data m)) = data m"
    proof (rule mask_partition)
      show "length (data ?Ta) = length (data m)" using lenm len0 by simp
      show "\<And>x. x \<in> set (data ?Ta) \<Longrightarrow> x = 0 \<or> x = 1" by (rule tri_bits)
    qed
    then show ?thesis by simp
  qed
  ultimately have sum: "add ?L ?U = Inr m" using assms by simp
  have diag: "item ?L i i = item m i i \<and> item ?V i i = item m i i" if "i < n" "i < c" for i
  proof -
    have p: "i * c + i < n * c" using that by (rule flat_index_lt)
    have t0: "item ?Ta i i = 1" using tri_item [of i "int n" i "int c" 0 "Some ()", where 'a = 'a] that by simp
    have t1: "item ?Tb i i = 0" using tri_item [of i "int n" i "int c" "- 1" "Some ()", where 'a = 'a] that by simp
    show ?thesis using p t0 t1 lenm len0 len1 assms(1)
      by (simp add: item_def tri_shape)
  qed
  show ?thesis using L U U0 sum diag by blast
qed

theorem tril_triu_partition_witness:
  "\<exists>L U U0. tril \<lparr>shape = [2, 2], data = [1, 2, 3, 4 :: int]\<rparr> 0 = Inr L \<and>
       triu \<lparr>shape = [2, 2], data = [1, 2, 3, 4 :: int]\<rparr> 1 = Inr U \<and>
       add L U = Inr \<lparr>shape = [2, 2], data = [1, 2, 3, 4 :: int]\<rparr> \<and>
       triu \<lparr>shape = [2, 2], data = [1, 2, 3, 4 :: int]\<rparr> 0 = Inr U0 \<and>
       item L 1 1 = 4 \<and> item U0 1 1 = 4"
proof -
  let ?m = "\<lparr>shape = [2, 2], data = [1, 2, 3, 4 :: int]\<rparr>"
  have h: "shape ?m = [2, 2]" "wf ?m" by (simp_all add: wf_def)
  have i: "item ?m 1 1 = 4" by (simp add: item_def)
  from tril_triu_partition [OF h] obtain L U U0 where
    r: "tril ?m 0 = Inr L" "triu ?m 1 = Inr U" "add L U = Inr ?m" "triu ?m 0 = Inr U0"
       "\<forall>i. i < 2 \<and> i < 2 \<longrightarrow> item L i i = item ?m i i \<and> item U0 i i = item ?m i i"
    by blast
  from r(5) i have "item L 1 1 = 4 \<and> item U0 1 1 = 4" by simp
  with r show ?thesis by blast
qed

lemma concatenate_1d:
  assumes "shape x = [length (data x)]" "shape y = [length (data y)]"
  shows "concatenate [x, y] 0 = Inr \<lparr>shape = [length (data x) + length (data y)], data = data x @ data y\<rparr>"
  using assms by (simp add: concatenate_def ndim_def chunk_def)

lemma py_range_up: "py_range 0 (int n) 1 = map int [0..<n]"
  by (simp add: py_range_def)

lemma py_range_down: "py_range (int m - 1) (- 1) (- 1) = map (\<lambda>i. int m - 1 - int i) [0..<m]"
  by (simp add: py_range_def)

lemma getslice_reversed_tail:
  "getslice r (Some (- 1)) (Some 0) (- 1)
   = \<lparr>shape = [length (data r) - 1], data = rev (tl (data r))\<rparr>"
proof (cases "data r = []")
  case True
  then show ?thesis
    by (simp add: getslice_def slice_bound_def Let_def py_range_def)
next
  case False
  let ?n = "length (data r)"
  have pos: "0 < ?n" using False by simp
  have ixs: "py_range (int ?n - 1) 0 (- 1) = map (\<lambda>i. int ?n - 1 - int i) [0..<?n - 1]"
    using pos by (auto simp add: py_range_def nat_diff_distrib')
  have "map (\<lambda>i. data r ! nat (int ?n - 1 - int i)) [0..<?n - 1] = rev (tl (data r))"
  proof (rule nth_equalityI)
    show "length (map (\<lambda>i. data r ! nat (int ?n - 1 - int i)) [0..<?n - 1]) = length (rev (tl (data r)))"
      by simp
  next
    fix i assume "i < length (map (\<lambda>i. data r ! nat (int ?n - 1 - int i)) [0..<?n - 1])"
    then have i: "i < ?n - 1" by simp
    then have "nat (int ?n - 1 - int i) = Suc (?n - 1 - Suc i)" by linarith
    then show "map (\<lambda>i. data r ! nat (int ?n - 1 - int i)) [0..<?n - 1] ! i = rev (tl (data r)) ! i"
      using i by (simp add: rev_nth nth_tl)
  qed
  then have "map (\<lambda>i. data r ! nat i) (py_range (int ?n - 1) 0 (- 1)) = rev (tl (data r))"
    by (simp add: ixs comp_def)
  moreover have "length (py_range (int ?n - 1) 0 (- 1)) = ?n - 1" by (simp add: ixs)
  moreover have "min 0 (int ?n - 1) = 0" "max (- 1 + int ?n) (- 1) = int ?n - 1" using pos by simp_all
  ultimately show ?thesis
    by (simp add: getslice_def slice_bound_def Let_def)
qed

lemma getslice_tail:
  "getslice r (Some 1) None 1 = \<lparr>shape = [length (data r) - 1], data = tl (data r)\<rparr>"
proof (cases "data r = []")
  case True
  then show ?thesis
    by (simp add: getslice_def slice_bound_def Let_def py_range_def)
next
  case False
  let ?n = "length (data r)"
  have pos: "0 < ?n" using False by simp
  have ixs: "py_range 1 (int ?n) 1 = map (\<lambda>i. 1 + int i) [0..<?n - 1]"
    using pos by (auto simp add: py_range_def nat_diff_distrib')
  have "map (\<lambda>i. data r ! nat (1 + int i)) [0..<?n - 1] = tl (data r)"
  proof (rule nth_equalityI)
    show "length (map (\<lambda>i. data r ! nat (1 + int i)) [0..<?n - 1]) = length (tl (data r))"
      by simp
  next
    fix i assume "i < length (map (\<lambda>i. data r ! nat (1 + int i)) [0..<?n - 1])"
    then have i: "i < ?n - 1" by simp
    have "nat (1 + int i) = Suc i" by linarith
    then show "map (\<lambda>i. data r ! nat (1 + int i)) [0..<?n - 1] ! i = tl (data r) ! i"
      using i by (simp add: nth_tl)
  qed
  then have "map (\<lambda>i. data r ! nat i) (py_range 1 (int ?n) 1) = tl (data r)"
    by (simp add: ixs comp_def)
  moreover have "length (py_range 1 (int ?n) 1) = ?n - 1" by (simp add: ixs)
  moreover have "min 1 (int ?n) = 1" using pos by linarith
  ultimately show ?thesis
    by (simp add: getslice_def slice_bound_def Let_def)
qed

lemma binop_col_row:
  assumes "length a = n" "length b = m"
  shows "binop f \<lparr>shape = [n, 1], data = a\<rparr> \<lparr>shape = [1, m], data = b\<rparr>
         = Inr \<lparr>shape = [n, m], data = map (\<lambda>k. f (a ! (k div m)) (b ! (k mod m))) [0..<n * m]\<rparr>"
proof -
  have bs: "broadcast_shapes [n, 1] [1, m] = Some [n, m]"
    by (auto simp add: broadcast_shapes_def pad_shape_def)
  have A: "data (broadcast_to [n, m] \<lparr>shape = [n, 1], data = a\<rparr>) = map (\<lambda>k. a ! (k div m)) [0..<n * m]"
  proof -
    have "k < n * m \<Longrightarrow> (if n = Suc 0 then 0 else k div m) = k div m" for k by auto
    then show ?thesis by (simp add: broadcast_to_def pad_shape_def)
  qed
  have B: "data (broadcast_to [n, m] \<lparr>shape = [1, m], data = b\<rparr>) = map (\<lambda>k. b ! (k mod m)) [0..<n * m]"
    by (simp add: broadcast_to_def pad_shape_def)
  have "map2 f (map (\<lambda>k. a ! (k div m)) [0..<n * m]) (map (\<lambda>k. b ! (k mod m)) [0..<n * m])
        = map (\<lambda>k. f (a ! (k div m)) (b ! (k mod m))) [0..<n * m]"
    by (simp add: map2_map_map)
  then show ?thesis using bs A B by (simp add: binop_def)
qed

lemma item_tabulated:
  assumes "i < n" "j < m"
  shows "item \<lparr>shape = [n, m], data = map f [0..<n * m]\<rparr> i j = f (i * m + j)"
  using flat_index_lt [OF assms] by (simp add: item_def)

lemma toeplitz_eq:
  fixes c r :: "'a ndarray"
  defines "lc \<equiv> length (data c)" and "lr \<equiv> length (data r)"
  defines "vals \<equiv> rev (tl (data r)) @ data c"
  shows "toeplitz cnj c (Some r)
         = Inr \<lparr>shape = [lc, lr],
                data = map (\<lambda>k. vals ! (k div lr + (lr - 1 - k mod lr))) [0..<lc * lr]\<rparr>"
proof -
  let ?c = "ravel c" and ?r = "ravel r"
  let ?vals = "\<lparr>shape = [(lr - 1) + lc], data = vals\<rparr>"
  let ?idx = "map (\<lambda>k. map int [0..<lc] ! (k div lr) + map (\<lambda>i. int lr - 1 - int i) [0..<lr] ! (k mod lr))
                [0..<lc * lr]"
  have cat: "concatenate [getslice ?r (Some (- 1)) (Some 0) (- 1), ?c] 0 = Inr ?vals"
    using concatenate_1d [of "getslice ?r (Some (- 1)) (Some 0) (- 1)" ?c]
    by (simp add: getslice_reversed_tail ravel_def lc_def lr_def vals_def)
  have og: "ogrid (0, int (len ?c), 1) (int (len ?r) - 1, - 1, - 1)
            = (\<lparr>shape = [lc, 1], data = map int [0..<lc]\<rparr>,
               \<lparr>shape = [1, lr], data = map (\<lambda>i. int lr - 1 - int i) [0..<lr]\<rparr>)"
    by (simp add: ogrid_def len_def ravel_def py_range_up py_range_down lc_def lr_def)
  have ad: "add \<lparr>shape = [lc, 1], data = map int [0..<lc]\<rparr>
                \<lparr>shape = [1, lr], data = map (\<lambda>i. int lr - 1 - int i) [0..<lr]\<rparr>
            = Inr \<lparr>shape = [lc, lr], data = ?idx\<rparr>"
    unfolding add_def by (rule binop_col_row) simp_all
  have rng: "k div lr < lc \<and> k mod lr < lr" if "k < lc * lr" for k
  proof -
    have "0 < lr" using that by (cases "lr = 0") simp_all
    moreover have "k div lr < lc" using that by (simp add: less_mult_imp_div_less)
    ultimately show ?thesis by simp
  qed
  have idx: "?idx = map (\<lambda>k. int (k div lr + (lr - 1 - k mod lr))) [0..<lc * lr]"
  proof (rule map_cong [OF refl])
    fix k assume "k \<in> set [0..<lc * lr]"
    then have "k div lr < lc \<and> k mod lr < lr" using rng by simp
    then show "map int [0..<lc] ! (k div lr) + map (\<lambda>i. int lr - 1 - int i) [0..<lr] ! (k mod lr)
               = int (k div lr + (lr - 1 - k mod lr))"
      by (simp add: of_nat_diff)
  qed
  have lenv: "length vals = lr - 1 + lc" by (simp add: vals_def lc_def lr_def)
  have ok: "\<forall>i \<in> set ?idx. - int (length vals) \<le> i \<and> i < int (length vals)"
  proof
    fix i assume "i \<in> set ?idx"
    then obtain k where k: "k < lc * lr" "i = int (k div lr + (lr - 1 - k mod lr))"
      unfolding idx by auto
    have "k div lr < lc \<and> k mod lr < lr" using rng k(1) by simp
    then have "k div lr + (lr - 1 - k mod lr) < lr - 1 + lc" by linarith
    then show "- int (length vals) \<le> i \<and> i < int (length vals)" using k(2) lenv by simp
  qed
  have gi: "getitem ?vals \<lparr>shape = [lc, lr], data = ?idx\<rparr>
            = Inr \<lparr>shape = [lc, lr],
                   data = map (\<lambda>k. vals ! (k div lr + (lr - 1 - k mod lr))) [0..<lc * lr]\<rparr>"
  proof -
    have "getitem ?vals \<lparr>shape = [lc, lr], data = ?idx\<rparr>
          = Inr \<lparr>shape = [lc, lr],
                 data = map (\<lambda>i. vals ! nat (if i < 0 then i + int (length vals) else i)) ?idx\<rparr>"
      using ok by (simp add: getitem_def Let_def)
    also have "map (\<lambda>i. vals ! nat (if i < 0 then i + int (length vals) else i)) ?idx
               = map (\<lambda>k. vals ! (k div lr + (lr - 1 - k mod lr))) [0..<lc * lr]"
    proof -
      have "nat (if int x < 0 then int x + int (length vals) else int x) = x" for x by simp
      then show ?thesis unfolding idx by (simp add: comp_def del: of_nat_add of_nat_diff)
    qed
    finally show ?thesis .
  qed
  show ?thesis
    unfolding toeplitz_def Let_def option.case cat and_then_def sum.case og prod.case ad
    by (rule gi)
qed


text \<open>
  C2. For every one-dimensional \<open>c\<close> and non-empty one-dimensional \<open>r\<close>,
  \<^verbatim>\<open>toeplitz(c, r)\<close> returns an array of shape \<open>(len(c), len(r))\<close>; with
  \<open>vals = concat(reverse(r[1:]), c)\<close>, of length \<open>len(c) + len(r) - 1\<close>, its entry at
  \<open>[i, j]\<close> is \<open>vals[(len(r) - 1) - j + i]\<close>; entries with equal \<open>i - j\<close> are equal; and
  \<^verbatim>\<open>toeplitz([1,2,3], [1,4,5,6])\<close> is \<open>[[1,4,5,6],[2,1,4,5],[3,2,1,4]]\<close>.
\<close>

theorem toeplitz_spec:
  fixes c r :: "'a ndarray"
  assumes "shape c = [lc]" "wf c" "shape r = [lr]" "wf r" "0 < lr"
  shows "(\<exists>T. toeplitz cnj c (Some r) = Inr T \<and> shape T = [lc, lr] \<and> wf T \<and>
           length (rev (tl (data r)) @ data c) = lc + lr - 1 \<and>
           (\<forall>i j. i < lc \<and> j < lr \<longrightarrow>
              item T i j = (rev (tl (data r)) @ data c) ! ((lr - 1) - j + i)) \<and>
           (\<forall>i1 j1 i2 j2. i1 < lc \<and> i2 < lc \<and> j1 < lr \<and> j2 < lr \<and>
              int i1 - int j1 = int i2 - int j2 \<longrightarrow> item T i1 j1 = item T i2 j2)) \<and>
         toeplitz (\<lambda>x. x) \<lparr>shape = [3], data = [1, 2, 3 :: int]\<rparr>
           (Some \<lparr>shape = [4], data = [1, 4, 5, 6]\<rparr>)
         = Inr \<lparr>shape = [3, 4], data = [1, 4, 5, 6,  2, 1, 4, 5,  3, 2, 1, 4]\<rparr>"
proof (rule conjI)
  let ?vals = "rev (tl (data r)) @ data c"
  let ?T = "\<lparr>shape = [lc, lr], data = map (\<lambda>k. ?vals ! (k div lr + (lr - 1 - k mod lr))) [0..<lc * lr]\<rparr>"
  have lc: "length (data c) = lc" and lr: "length (data r) = lr"
    using assms by (simp_all add: wf_def)
  have T: "toeplitz cnj c (Some r) = Inr ?T"
    using toeplitz_eq [of cnj c r] by (simp add: lc lr)
  have entry: "item ?T i j = ?vals ! ((lr - 1) - j + i)" if "i < lc" "j < lr" for i j
  proof -
    have "item ?T i j = ?vals ! ((i * lr + j) div lr + (lr - 1 - (i * lr + j) mod lr))"
      using that by (rule item_tabulated)
    then show ?thesis using that by (simp add: add.commute)
  qed
  have diag: "item ?T i1 j1 = item ?T i2 j2"
    if "i1 < lc" "i2 < lc" "j1 < lr" "j2 < lr" "int i1 - int j1 = int i2 - int j2" for i1 j1 i2 j2
  proof -
    have "(lr - 1) - j1 + i1 = (lr - 1) - j2 + i2" using that by linarith
    then show ?thesis using entry that by simp
  qed
  have "shape ?T = [lc, lr] \<and> wf ?T \<and> length ?vals = lc + lr - 1"
    using assms(5) by (simp add: wf_def lc lr)
  then show "\<exists>T. toeplitz cnj c (Some r) = Inr T \<and> shape T = [lc, lr] \<and> wf T \<and>
           length ?vals = lc + lr - 1 \<and>
           (\<forall>i j. i < lc \<and> j < lr \<longrightarrow> item T i j = ?vals ! ((lr - 1) - j + i)) \<and>
           (\<forall>i1 j1 i2 j2. i1 < lc \<and> i2 < lc \<and> j1 < lr \<and> j2 < lr \<and>
              int i1 - int j1 = int i2 - int j2 \<longrightarrow> item T i1 j1 = item T i2 j2)"
    using T entry diag by blast
  show "toeplitz (\<lambda>x. x) \<lparr>shape = [3], data = [1, 2, 3 :: int]\<rparr>
           (Some \<lparr>shape = [4], data = [1, 4, 5, 6]\<rparr>)
         = Inr \<lparr>shape = [3, 4], data = [1, 4, 5, 6,  2, 1, 4, 5,  3, 2, 1, 4]\<rparr>"
    by (simp add: toeplitz_eq upt_conv_Cons)
qed

theorem toeplitz_spec_witness:
  "\<exists>T. toeplitz (\<lambda>x. x) \<lparr>shape = [2], data = [7, 8 :: int]\<rparr> (Some \<lparr>shape = [2], data = [0, 9]\<rparr>) = Inr T \<and>
       shape T = [2, 2] \<and> item T 0 0 = item T 1 1 \<and> item T 0 1 = 9"
proof -
  let ?c = "\<lparr>shape = [2], data = [7, 8 :: int]\<rparr>" and ?r = "\<lparr>shape = [2], data = [0, 9 :: int]\<rparr>"
  have h: "shape ?c = [2]" "wf ?c" "shape ?r = [2]" "wf ?r" "0 < (2::nat)"
    by (simp_all add: wf_def)
  from toeplitz_spec [OF h, of "\<lambda>x. x", THEN conjunct1] obtain T where
    t: "toeplitz (\<lambda>x. x) ?c (Some ?r) = Inr T" "shape T = [2, 2]"
       "\<forall>i j. i < 2 \<and> j < 2 \<longrightarrow> item T i j = (rev (tl (data ?r)) @ data ?c) ! ((2 - 1) - j + i)"
       "\<forall>i1 j1 i2 j2. i1 < 2 \<and> i2 < 2 \<and> j1 < 2 \<and> j2 < 2 \<and>
              int i1 - int j1 = int i2 - int j2 \<longrightarrow> item T i1 j1 = item T i2 j2"
    by blast
  from t(3) have "item T 0 1 = 9" by simp
  moreover from t(4) have "item T 0 0 = item T 1 1" by simp
  ultimately show ?thesis using t(1,2) by blast
qed

lemma hankel_core:
  fixes cc rr :: "'a ndarray"
  assumes "shape cc = [length (data cc)]" "shape rr = [length (data rr)]"
  defines "lc \<equiv> length (data cc)" and "lr \<equiv> length (data rr)"
  defines "vals \<equiv> data cc @ tl (data rr)"
  shows "and_then (concatenate [cc, getslice rr (Some 1) None 1] 0) (\<lambda>vals.
           case ogrid (0, int (len cc), 1) (0, int (len rr), 1) of (a, b) \<Rightarrow>
             and_then (add a b) (\<lambda>indx. getitem vals indx))
         = Inr \<lparr>shape = [lc, lr], data = map (\<lambda>k. vals ! (k div lr + k mod lr)) [0..<lc * lr]\<rparr>"
proof -
  let ?vals = "\<lparr>shape = [lc + (lr - 1)], data = vals\<rparr>"
  let ?idx = "map (\<lambda>k. map int [0..<lc] ! (k div lr) + map int [0..<lr] ! (k mod lr)) [0..<lc * lr]"
  have cat: "concatenate [cc, getslice rr (Some 1) None 1] 0 = Inr ?vals"
    using concatenate_1d [of cc "getslice rr (Some 1) None 1"] assms(1)
    by (simp add: getslice_tail lc_def lr_def vals_def)
  have og: "ogrid (0, int (len cc), 1) (0, int (len rr), 1)
            = (\<lparr>shape = [lc, 1], data = map int [0..<lc]\<rparr>,
               \<lparr>shape = [1, lr], data = map int [0..<lr]\<rparr>)"
    using assms(1,2) by (simp add: ogrid_def len_def py_range_up lc_def lr_def)
  have ad: "add \<lparr>shape = [lc, 1], data = map int [0..<lc]\<rparr> \<lparr>shape = [1, lr], data = map int [0..<lr]\<rparr>
            = Inr \<lparr>shape = [lc, lr], data = ?idx\<rparr>"
    unfolding add_def by (rule binop_col_row) simp_all
  have rng: "k div lr < lc \<and> k mod lr < lr" if "k < lc * lr" for k
  proof -
    have "0 < lr" using that by (cases "lr = 0") simp_all
    moreover have "k div lr < lc" using that by (simp add: less_mult_imp_div_less)
    ultimately show ?thesis by simp
  qed
  have idx: "?idx = map (\<lambda>k. int (k div lr + k mod lr)) [0..<lc * lr]"
  proof (rule map_cong [OF refl])
    fix k assume "k \<in> set [0..<lc * lr]"
    then have "k div lr < lc \<and> k mod lr < lr" using rng by simp
    then show "map int [0..<lc] ! (k div lr) + map int [0..<lr] ! (k mod lr) = int (k div lr + k mod lr)"
      by simp
  qed
  have lenv: "length vals = lc + (lr - 1)" by (simp add: vals_def lc_def lr_def)
  have ok: "\<forall>i \<in> set ?idx. - int (length vals) \<le> i \<and> i < int (length vals)"
  proof
    fix i assume "i \<in> set ?idx"
    then obtain k where k: "k < lc * lr" "i = int (k div lr + k mod lr)"
      unfolding idx by auto
    have "k div lr < lc \<and> k mod lr < lr" using rng k(1) by simp
    then have "k div lr + k mod lr < lc + (lr - 1)" by linarith
    then show "- int (length vals) \<le> i \<and> i < int (length vals)" using k(2) lenv by simp
  qed
  have gi: "getitem ?vals \<lparr>shape = [lc, lr], data = ?idx\<rparr>
            = Inr \<lparr>shape = [lc, lr], data = map (\<lambda>k. vals ! (k div lr + k mod lr)) [0..<lc * lr]\<rparr>"
  proof -
    have "getitem ?vals \<lparr>shape = [lc, lr], data = ?idx\<rparr>
          = Inr \<lparr>shape = [lc, lr],
                 data = map (\<lambda>i. vals ! nat (if i < 0 then i + int (length vals) else i)) ?idx\<rparr>"
      using ok by (simp add: getitem_def Let_def)
    also have "map (\<lambda>i. vals ! nat (if i < 0 then i + int (length vals) else i)) ?idx
               = map (\<lambda>k. vals ! (k div lr + k mod lr)) [0..<lc * lr]"
    proof -
      have "nat (if int x < 0 then int x + int (length vals) else int x) = x" for x by simp
      then show ?thesis unfolding idx by (simp add: comp_def del: of_nat_add of_nat_diff)
    qed
    finally show ?thesis .
  qed
  show ?thesis
    unfolding cat and_then_def sum.case og prod.case ad
    by (rule gi)
qed

lemma hankel_eq:
  "hankel c (Some r)
   = Inr \<lparr>shape = [length (data c), length (data r)],
          data = map (\<lambda>k. (data c @ tl (data r)) ! (k div length (data r) + k mod length (data r)))
                   [0..<length (data c) * length (data r)]\<rparr>"
  using hankel_core [of "ravel c" "ravel r"] by (simp add: hankel_def ravel_def)

lemma hankel_None_eq:
  "hankel c None
   = Inr \<lparr>shape = [length (data c), length (data c)],
          data = map (\<lambda>k. (data c @ replicate (length (data c) - 1) 0) ! (k div length (data c) + k mod length (data c)))
                   [0..<length (data c) * length (data c)]\<rparr>"
proof -
  have "tl (map (\<lambda>_. 0::'a) (data c)) = replicate (length (data c) - 1) 0"
    by (cases "data c") (simp_all add: map_replicate_const)
  then show ?thesis
    using hankel_core [of "ravel c" "zeros_like (ravel c)"]
    by (simp add: hankel_def ravel_def zeros_like_def)
qed


text \<open>
  C3. For non-empty one-dimensional \<open>c\<close> and \<open>r\<close>, \<^verbatim>\<open>hankel(c, r)\<close> returns an array of
  shape \<open>(len(c), len(r))\<close>; with \<open>vals = concat(c, r[1:])\<close>, of length
  \<open>len(c) + len(r) - 1\<close>, its entry at \<open>[i, j]\<close> is \<open>vals[i + j]\<close>, so entries with equal
  \<open>i + j\<close> are equal; and when \<open>r\<close> is omitted the last row of \<^verbatim>\<open>hankel(c)\<close> is zero at
  every column beyond column 0.
\<close>

theorem hankel_spec:
  fixes c r :: "('a::zero) ndarray"
  assumes "shape c = [lc]" "wf c" "shape r = [lr]" "wf r" "0 < lc" "0 < lr"
  shows "(\<exists>H. hankel c (Some r) = Inr H \<and> shape H = [lc, lr] \<and> wf H \<and>
            length (data c @ tl (data r)) = lc + lr - 1 \<and>
            (\<forall>i j. i < lc \<and> j < lr \<longrightarrow> item H i j = (data c @ tl (data r)) ! (i + j)) \<and>
            (\<forall>i1 j1 i2 j2. i1 < lc \<and> i2 < lc \<and> j1 < lr \<and> j2 < lr \<and> i1 + j1 = i2 + j2
               \<longrightarrow> item H i1 j1 = item H i2 j2)) \<and>
         (\<exists>H0. hankel c None = Inr H0 \<and> shape H0 = [lc, lc] \<and>
            (\<forall>j. 0 < j \<and> j < lc \<longrightarrow> item H0 (lc - 1) j = 0))"
proof (rule conjI)
  let ?vals = "data c @ tl (data r)"
  let ?H = "\<lparr>shape = [lc, lr], data = map (\<lambda>k. ?vals ! (k div lr + k mod lr)) [0..<lc * lr]\<rparr>"
  have lc: "length (data c) = lc" and lr: "length (data r) = lr"
    using assms by (simp_all add: wf_def)
  have H: "hankel c (Some r) = Inr ?H" by (simp add: hankel_eq lc lr)
  have entry: "item ?H i j = ?vals ! (i + j)" if "i < lc" "j < lr" for i j
  proof -
    have "item ?H i j = ?vals ! ((i * lr + j) div lr + (i * lr + j) mod lr)"
      using that by (rule item_tabulated)
    then show ?thesis using that by simp
  qed
  have "shape ?H = [lc, lr] \<and> wf ?H \<and> length ?vals = lc + lr - 1"
    using assms(6) by (simp add: wf_def lc lr)
  then show "\<exists>H. hankel c (Some r) = Inr H \<and> shape H = [lc, lr] \<and> wf H \<and>
            length ?vals = lc + lr - 1 \<and>
            (\<forall>i j. i < lc \<and> j < lr \<longrightarrow> item H i j = ?vals ! (i + j)) \<and>
            (\<forall>i1 j1 i2 j2. i1 < lc \<and> i2 < lc \<and> j1 < lr \<and> j2 < lr \<and> i1 + j1 = i2 + j2
               \<longrightarrow> item H i1 j1 = item H i2 j2)"
    using H entry by (metis (no_types, lifting))
  let ?z = "data c @ replicate (lc - 1) (0::'a)"
  let ?H0 = "\<lparr>shape = [lc, lc], data = map (\<lambda>k. ?z ! (k div lc + k mod lc)) [0..<lc * lc]\<rparr>"
  have H0: "hankel c None = Inr ?H0" by (simp add: hankel_None_eq lc)
  have "item ?H0 (lc - 1) j = 0" if "0 < j" "j < lc" for j
  proof -
    have "lc - 1 < lc" using assms(5) by simp
    then have "item ?H0 (lc - 1) j = ?z ! (((lc - 1) * lc + j) div lc + ((lc - 1) * lc + j) mod lc)"
      using that(2) by (rule item_tabulated)
    also have "\<dots> = ?z ! (lc - 1 + j)" using that by simp
    also have "\<dots> = ?z ! (length (data c) + (j - 1))"
      using that lc by simp
    also have "\<dots> = replicate (lc - 1) (0::'a) ! (j - 1)"
      by (rule nth_append_length_plus)
    also have "\<dots> = 0" using that by simp
    finally show ?thesis .
  qed
  then show "\<exists>H0. hankel c None = Inr H0 \<and> shape H0 = [lc, lc] \<and>
            (\<forall>j. 0 < j \<and> j < lc \<longrightarrow> item H0 (lc - 1) j = 0)"
    using H0 by simp
qed

theorem hankel_spec_witness:
  "(\<exists>H. hankel \<lparr>shape = [2], data = [1, 2 :: int]\<rparr> (Some \<lparr>shape = [2], data = [0, 3]\<rparr>) = Inr H \<and>
        item H 0 1 = item H 1 0 \<and> item H 1 1 = 3) \<and>
   (\<exists>H0. hankel \<lparr>shape = [2], data = [1, 2 :: int]\<rparr> None = Inr H0 \<and> item H0 1 1 = 0)"
proof -
  let ?c = "\<lparr>shape = [2], data = [1, 2 :: int]\<rparr>" and ?r = "\<lparr>shape = [2], data = [0, 3 :: int]\<rparr>"
  have h: "shape ?c = [2]" "wf ?c" "shape ?r = [2]" "wf ?r" "0 < (2::nat)" "0 < (2::nat)"
    by (simp_all add: wf_def)
  note s = hankel_spec [OF h]
  from s [THEN conjunct1] obtain H where
    t: "hankel ?c (Some ?r) = Inr H"
       "\<forall>i j. i < 2 \<and> j < 2 \<longrightarrow> item H i j = (data ?c @ tl (data ?r)) ! (i + j)"
       "\<forall>i1 j1 i2 j2. i1 < 2 \<and> i2 < 2 \<and> j1 < 2 \<and> j2 < 2 \<and> i1 + j1 = i2 + j2
               \<longrightarrow> item H i1 j1 = item H i2 j2"
    by blast
  from t(2) have a: "item H 1 1 = 3" by simp
  from t(3) have b: "item H 0 1 = item H 1 0" by simp
  from s [THEN conjunct2] obtain H0 where
    u: "hankel ?c None = Inr H0" "\<forall>j. 0 < j \<and> j < 2 \<longrightarrow> item H0 (2 - 1) j = 0"
    by blast
  from u(2) have "item H0 1 1 = 0" by simp
  with a b t(1) u(1) show ?thesis by blast
qed

text \<open>
  C4 (as amended). For non-empty one-dimensional \<open>c\<close> and \<open>r\<close>, \<^verbatim>\<open>hankel\<close> ignores
  \<open>r[0]\<close>: \<^verbatim>\<open>hankel(c, r) == hankel(c, r')\<close> whenever \<open>r\<close> and \<open>r'\<close> agree after index 0;
  and the entry at \<open>[len(c) - 1, 0]\<close> (last row, column 0) is the last element of \<open>c\<close>,
  \<open>c[len(c) - 1]\<close>: the first column of the matrix is \<open>c\<close>.
\<close>

theorem hankel_ignores_r0:
  fixes c r r' :: "('a::zero) ndarray"
  assumes "shape c = [lc]" "wf c" "shape r = [lr]" "wf r" "shape r' = [lr]" "wf r'"
    and "0 < lc" "0 < lr" "tl (data r) = tl (data r')"
  shows "hankel c (Some r) = hankel c (Some r') \<and>
         (\<exists>H. hankel c (Some r) = Inr H \<and> item H (lc - 1) 0 = data c ! (lc - 1) \<and>
              (\<forall>i. i < lc \<longrightarrow> item H i 0 = data c ! i))"
proof -
  let ?vals = "data c @ tl (data r)"
  let ?H = "\<lparr>shape = [lc, lr], data = map (\<lambda>k. ?vals ! (k div lr + k mod lr)) [0..<lc * lr]\<rparr>"
  have lc: "length (data c) = lc" and lr: "length (data r) = lr" and lr': "length (data r') = lr"
    using assms by (simp_all add: wf_def)
  have H: "hankel c (Some r) = Inr ?H" by (simp add: hankel_eq lc lr)
  have same: "hankel c (Some r) = hankel c (Some r')"
    using assms(9) by (simp add: hankel_eq lc lr lr')
  have col: "item ?H i 0 = data c ! i" if "i < lc" for i
  proof -
    have "item ?H i 0 = ?vals ! ((i * lr + 0) div lr + (i * lr + 0) mod lr)"
      using that assms(8) by (rule item_tabulated)
    then show ?thesis using that assms(8) lc by (simp add: nth_append)
  qed
  moreover have "lc - 1 < lc" using assms(7) by simp
  ultimately have "item ?H (lc - 1) 0 = data c ! (lc - 1)" by blast
  then show ?thesis using same H col by blast
qed

theorem hankel_ignores_r0_witness:
  "hankel \<lparr>shape = [2], data = [1, 2 :: int]\<rparr> (Some \<lparr>shape = [2], data = [0, 3]\<rparr>)
   = hankel \<lparr>shape = [2], data = [1, 2 :: int]\<rparr> (Some \<lparr>shape = [2], data = [5, 3]\<rparr>) \<and>
   (\<exists>H. hankel \<lparr>shape = [2], data = [1, 2 :: int]\<rparr> (Some \<lparr>shape = [2], data = [0, 3]\<rparr>) = Inr H \<and>
        item H 1 0 = 2)"
proof -
  let ?c = "\<lparr>shape = [2], data = [1, 2 :: int]\<rparr>"
  let ?r = "\<lparr>shape = [2], data = [0, 3 :: int]\<rparr>" and ?r' = "\<lparr>shape = [2], data = [5, 3 :: int]\<rparr>"
  have h: "shape ?c = [2]" "wf ?c" "shape ?r = [2]" "wf ?r" "shape ?r' = [2]" "wf ?r'"
    "0 < (2::nat)" "0 < (2::nat)" "tl (data ?r) = tl (data ?r')"
    by (simp_all add: wf_def)
  note s = hankel_ignores_r0 [OF h]
  from s [THEN conjunct2] obtain H where
    t: "hankel ?c (Some ?r) = Inr H" "item H (2 - 1) 0 = data ?c ! (2 - 1)"
    by blast
  from t(2) have "item H 1 0 = 2" by simp
  with t(1) s [THEN conjunct1] show ?thesis by blast
qed

text \<open>
  The claim as first stated puts \<open>c[0]\<close> at \<open>[len(c) - 1, 0]\<close>; in
  \<^verbatim>\<open>hankel([1, 2], [0, 3])\<close>, which is \<open>[[1, 2], [2, 3]]\<close>, that entry is 2 and \<open>c[0]\<close> is 1.
\<close>

theorem hankel_last_row_counterexample:
  "hankel \<lparr>shape = [2], data = [1, 2 :: int]\<rparr> (Some \<lparr>shape = [2], data = [0, 3]\<rparr>)
     = Inr \<lparr>shape = [2, 2], data = [1, 2, 2, 3]\<rparr> \<and>
   item \<lparr>shape = [2, 2], data = [1, 2, 2, 3 :: int]\<rparr> (2 - 1) 0
     \<noteq> data \<lparr>shape = [2], data = [1, 2 :: int]\<rparr> ! 0"
  by code_simp

lemma chunk_length: "(i + 1) * p \<le> length xs \<Longrightarrow> length (chunk p i xs) = p"
  by (simp add: chunk_def)

lemma chunk_nth: "(i + 1) * p \<le> length xs \<Longrightarrow> j < p \<Longrightarrow> chunk p i xs ! j = xs ! (i * p + j)"
  by (simp add: chunk_def)

lemma row_bound: "i < n \<Longrightarrow> (i + 1) * p \<le> n * (p::nat)"
  by (intro mult_le_mono1) simp
























lemma concat_chunks_row_length:
  assumes "\<And>d. d \<in> set ds \<Longrightarrow> length d = n * c" "i < n"
  shows "length (concat (map (\<lambda>d. chunk c i d) ds)) = length ds * c"
proof -
  have "length (concat (map (\<lambda>d. chunk c i d) ds)) = length (map (\<lambda>d. chunk c i d) ds) * c"
  proof (rule length_concat_uniform)
    fix r assume "r \<in> set (map (\<lambda>d. chunk c i d) ds)"
    then obtain d where d: "d \<in> set ds" "r = chunk c i d" by auto
    have "(i + 1) * c \<le> length d" using assms(1) [OF d(1)] row_bound [OF assms(2), of c] by simp
    then show "length r = c" using d(2) by (simp add: chunk_length)
  qed
  then show ?thesis by simp
qed

lemma concat_chunks_length:
  assumes "\<And>d. d \<in> set ds \<Longrightarrow> length d = n * c"
  shows "length (concat (map (\<lambda>i. concat (map (\<lambda>d. chunk c i d) ds)) [0..<n])) = n * (length ds * c)"
proof -
  let ?rows = "map (\<lambda>i. concat (map (\<lambda>d. chunk c i d) ds)) [0..<n]"
  have "length (concat ?rows) = length ?rows * (length ds * c)"
  proof (rule length_concat_uniform)
    fix r assume "r \<in> set ?rows"
    then obtain i where "i < n" "r = concat (map (\<lambda>d. chunk c i d) ds)" by auto
    then show "length r = length ds * c" using concat_chunks_row_length [OF assms] by simp
  qed
  then show ?thesis by simp
qed

lemma concat_chunks_nth:
  assumes "\<And>d. d \<in> set ds \<Longrightarrow> length d = n * c" "i < n" "j < length ds" "v < c"
  shows "concat (map (\<lambda>i. concat (map (\<lambda>d. chunk c i d) ds)) [0..<n]) ! (i * (length ds * c) + (j * c + v))
         = ds ! j ! (i * c + v)"
proof -
  let ?rows = "map (\<lambda>i. concat (map (\<lambda>d. chunk c i d) ds)) [0..<n]"
  have u: "j * c + v < length ds * c" using assms(3,4) by (rule flat_index_lt)
  have "concat ?rows ! (i * (length ds * c) + (j * c + v)) = ?rows ! i ! (j * c + v)"
  proof (rule nth_concat_uniform)
    fix r assume "r \<in> set ?rows"
    then obtain i' where "i' < n" "r = concat (map (\<lambda>d. chunk c i' d) ds)" by auto
    then show "length r = length ds * c" using concat_chunks_row_length [OF assms(1)] by simp
  next
    show "i < length ?rows" using assms(2) by simp
    show "j * c + v < length ds * c" by (rule u)
  qed
  also have "?rows ! i = concat (map (\<lambda>d. chunk c i d) ds)" using assms(2) by simp
  also have "concat (map (\<lambda>d. chunk c i d) ds) ! (j * c + v) = map (\<lambda>d. chunk c i d) ds ! j ! v"
  proof (rule nth_concat_uniform)
    fix r assume "r \<in> set (map (\<lambda>d. chunk c i d) ds)"
    then obtain d where d: "d \<in> set ds" "r = chunk c i d" by auto
    have "(i + 1) * c \<le> length d" using assms(1) [OF d(1)] row_bound [OF assms(2), of c] by simp
    then show "length r = c" using d(2) by (simp add: chunk_length)
  next
    show "j < length (map (\<lambda>d. chunk c i d) ds)" using assms(3) by simp
    show "v < c" by (rule assms(4))
  qed
  also have "map (\<lambda>d. chunk c i d) ds ! j ! v = chunk c i (ds ! j) ! v" using assms(3) by simp
  also have "\<dots> = ds ! j ! (i * c + v)"
  proof (rule chunk_nth)
    have "length (ds ! j) = n * c" using assms(1,3) by simp
    then show "(i + 1) * c \<le> length (ds ! j)" using row_bound [OF assms(2), of c] by simp
    show "v < c" by (rule assms(4))
  qed
  finally show ?thesis .
qed

lemma outer_length: "length (data (outer a b)) = length (data a) * length (data b)"
proof -
  have "length (concat (map (\<lambda>x. map (\<lambda>y. x * y) (data b)) (data a)))
        = length (map (\<lambda>x. map (\<lambda>y. x * y) (data b)) (data a)) * length (data b)"
    by (rule length_concat_uniform) auto
  then show ?thesis by (simp add: outer_def)
qed

lemma outer_nth:
  assumes "r < length (data a)" "v < length (data b)"
  shows "data (outer a b) ! (r * length (data b) + v) = data a ! r * data b ! v"
proof -
  let ?rows = "map (\<lambda>x. map (\<lambda>y. x * y) (data b)) (data a)"
  have "concat ?rows ! (r * length (data b) + v) = ?rows ! r ! v"
    by (rule nth_concat_uniform) (use assms in auto)
  then show ?thesis using assms by (simp add: outer_def)
qed

lemma sum_list_const: "sum_list (map (\<lambda>_. c) xs) = length xs * (c::nat)"
  by (induction xs) simp_all

lemma concatenate_uniform_axis1:
  assumes "arrs \<noteq> []" "\<And>B. B \<in> set arrs \<Longrightarrow> shape B = d0 # d1 # rest"
  shows "concatenate arrs 1
         = Inr \<lparr>shape = d0 # (length arrs * d1) # rest,
                data = concat (map (\<lambda>i. concat (map (\<lambda>d. chunk (d1 * prod_list rest) i d) (map data arrs)))
                                [0..<d0])\<rparr>"
proof -
  obtain A tl where arrs: "arrs = A # tl" using assms(1) by (cases arrs) auto
  have shA: "shape A = d0 # d1 # rest" using assms(2) arrs by simp
  have cond: "1 < ndim A \<and>
        (\<forall>B \<in> set arrs. ndim B = ndim A \<and> take 1 (shape B) = take 1 (shape A) \<and>
                         drop (Suc 1) (shape B) = drop (Suc 1) (shape A))"
    using assms(2) shA by (simp add: ndim_def)
  have sz: "sum_list (map (\<lambda>B. shape B ! 1) arrs) = length arrs * d1"
  proof -
    have "map (\<lambda>B. shape B ! 1) arrs = map (\<lambda>_. d1) arrs"
      by (rule map_cong [OF refl]) (simp add: assms(2))
    then show ?thesis by (simp only: sum_list_const)
  qed
  have dt: "map (\<lambda>B. chunk (prod_list (drop 1 (shape B))) i (data B)) arrs
            = map (\<lambda>d. chunk (d1 * prod_list rest) i d) (map data arrs)" for i
    unfolding map_map comp_def by (rule map_cong [OF refl]) (simp add: assms(2))
  have "concatenate arrs 1
        = Inr \<lparr>shape = (shape A)[1 := sum_list (map (\<lambda>B. shape B ! 1) arrs)],
               data = concat (map (\<lambda>outer.
                          concat (map (\<lambda>B. chunk (prod_list (drop 1 (shape B))) outer (data B)) arrs))
                        [0..<prod_list (take 1 (shape A))])\<rparr>"
    unfolding concatenate_def arrs list.case using cond unfolding arrs by (rule if_P)
  then show ?thesis unfolding sz dt using shA by simp
qed

lemma kron_2d:
  fixes a b :: "('a::times) ndarray"
  assumes "shape a = [M, N]" "wf a" "shape b = [P, Q]" "wf b" "0 < M" "0 < N"
  defines "od \<equiv> data (outer a b)"
  defines "D3 \<equiv> concat (map (\<lambda>i. concat (map (\<lambda>d. chunk (P * Q) i d)
                                  (map (\<lambda>I. chunk (N * (P * Q)) I od) [0..<M]))) [0..<N])"
  defines "D2 \<equiv> concat (map (\<lambda>s. concat (map (\<lambda>d. chunk Q s d)
                                  (map (\<lambda>J. chunk (M * P * Q) J D3) [0..<N]))) [0..<M * P])"
  shows "kron a b = Inr \<lparr>shape = [M * P, N * Q], data = D2\<rparr>"
proof -
  let ?o4 = "\<lparr>shape = [M, N, P, Q], data = od\<rparr>"
  let ?blocks = "map (\<lambda>I. \<lparr>shape = [N, P, Q], data = chunk (N * (P * Q)) I od\<rparr>) [0..<M]"
  let ?o3 = "\<lparr>shape = [N, M * P, Q], data = D3\<rparr>"
  let ?rows = "map (\<lambda>J. \<lparr>shape = [M * P, Q], data = chunk (M * P * Q) J D3\<rparr>) [0..<N]"
  have lena: "length (data a) = M * N" and lenb: "length (data b) = P * Q"
    using assms(1-4) by (simp_all add: wf_def)
  have lenod: "length od = M * N * (P * Q)" by (simp add: od_def outer_length lena lenb)
  have "prod_list (shape a @ shape b) = length (data (outer a b))"
    using lenod assms(1,3) by (simp add: od_def)
  then have "reshape (outer a b) (shape a @ shape b) = Inr ((outer a b)\<lparr>shape := shape a @ shape b\<rparr>)"
    by (simp add: reshape_def)
  moreover have "(outer a b)\<lparr>shape := shape a @ shape b\<rparr> = ?o4"
    using assms(1,3) by (simp add: od_def outer_def)
  ultimately have s1: "reshape (outer a b) (shape a @ shape b) = Inr ?o4" by simp
  have s2: "unstack ?o4 = Inr ?blocks" by (simp add: unstack_def)
  have s3: "concatenate ?blocks 1 = Inr ?o3"
  proof -
    have ne: "?blocks \<noteq> []" using assms(5) by simp
    have sh: "\<And>B. B \<in> set ?blocks \<Longrightarrow> shape B = N # P # [Q]" by auto
    have "concatenate ?blocks 1
          = Inr \<lparr>shape = N # (length ?blocks * P) # [Q],
                 data = concat (map (\<lambda>i. concat (map (\<lambda>d. chunk (P * prod_list [Q]) i d) (map data ?blocks)))
                                 [0..<N])\<rparr>"
      using ne sh by (rule concatenate_uniform_axis1)
    then show ?thesis by (simp add: D3_def comp_def)
  qed
  have s4: "unstack ?o3 = Inr ?rows" by (simp add: unstack_def)
  have s5: "concatenate ?rows 1 = Inr \<lparr>shape = [M * P, N * Q], data = D2\<rparr>"
  proof -
    have ne: "?rows \<noteq> []" using assms(6) by simp
    have sh: "\<And>B. B \<in> set ?rows \<Longrightarrow> shape B = (M * P) # Q # []" by auto
    have "concatenate ?rows 1
          = Inr \<lparr>shape = (M * P) # (length ?rows * Q) # [],
                 data = concat (map (\<lambda>i. concat (map (\<lambda>d. chunk (Q * prod_list []) i d) (map data ?rows)))
                                 [0..<M * P])\<rparr>"
      using ne sh by (rule concatenate_uniform_axis1)
    then show ?thesis by (simp add: D2_def comp_def)
  qed
  show ?thesis
    unfolding kron_def s1 and_then_def sum.case s2 s3 s4 by (rule s5)
qed

lemma kron_data_nth:
  fixes od :: "'a list"
  assumes lenod: "length od = M * N * (P * Q)"
    and "I < M" "J < N" "p < P" "q < Q"
  defines "D3 \<equiv> concat (map (\<lambda>i. concat (map (\<lambda>d. chunk (P * Q) i d)
                                  (map (\<lambda>I. chunk (N * (P * Q)) I od) [0..<M]))) [0..<N])"
  defines "D2 \<equiv> concat (map (\<lambda>s. concat (map (\<lambda>d. chunk Q s d)
                                  (map (\<lambda>J. chunk (M * P * Q) J D3) [0..<N]))) [0..<M * P])"
  shows "D2 ! ((I * P + p) * (N * Q) + (J * Q + q)) = od ! ((I * N + J) * (P * Q) + (p * Q + q))"
    and "length D2 = M * P * (N * Q)"
proof -
  let ?ds3 = "map (\<lambda>I. chunk (N * (P * Q)) I od) [0..<M]"
  let ?ds2 = "map (\<lambda>J. chunk (M * P * Q) J D3) [0..<N]"
  have v: "p * Q + q < P * Q" using assms(4,5) by (rule flat_index_lt)
  have s: "I * P + p < M * P" using assms(2,4) by (rule flat_index_lt)
  have len3: "length d = N * (P * Q)" if "d \<in> set ?ds3" for d
  proof -
    from that obtain I' where I': "I' < M" "d = chunk (N * (P * Q)) I' od" by auto
    have "(I' + 1) * (N * (P * Q)) \<le> M * (N * (P * Q))" using I'(1) by (rule row_bound)
    then have "(I' + 1) * (N * (P * Q)) \<le> length od" using lenod by (simp add: mult.assoc)
    then show ?thesis using I'(2) by (simp add: chunk_length)
  qed
  have lenD3: "length D3 = N * (M * (P * Q))"
    unfolding D3_def using concat_chunks_length [of ?ds3 N "P * Q"] len3 by simp
  have len2: "length d = M * P * Q" if "d \<in> set ?ds2" for d
  proof -
    from that obtain J' where J': "J' < N" "d = chunk (M * P * Q) J' D3" by auto
    have "(J' + 1) * (M * P * Q) \<le> N * (M * P * Q)" using J'(1) by (rule row_bound)
    then have "(J' + 1) * (M * P * Q) \<le> length D3" using lenD3 by (simp add: mult.assoc)
    then show ?thesis using J'(2) by (simp add: chunk_length)
  qed
  show "length D2 = M * P * (N * Q)"
    unfolding D2_def using concat_chunks_length [of ?ds2 "M * P" Q] len2 by simp
  have "D2 ! ((I * P + p) * (length ?ds2 * Q) + (J * Q + q)) = ?ds2 ! J ! ((I * P + p) * Q + q)"
    unfolding D2_def
    by (rule concat_chunks_nth) (use len2 s assms(3,5) in simp_all)
  then have a: "D2 ! ((I * P + p) * (N * Q) + (J * Q + q)) = chunk (M * P * Q) J D3 ! ((I * P + p) * Q + q)"
    using assms(3) by simp
  have "chunk (M * P * Q) J D3 ! ((I * P + p) * Q + q) = D3 ! (J * (M * P * Q) + ((I * P + p) * Q + q))"
  proof (rule chunk_nth)
    have "(J + 1) * (M * P * Q) \<le> N * (M * P * Q)" using assms(3) by (rule row_bound)
    then show "(J + 1) * (M * P * Q) \<le> length D3" using lenD3 by (simp add: mult.assoc)
    show "(I * P + p) * Q + q < M * P * Q" using s assms(5) by (rule flat_index_lt)
  qed
  also have "J * (M * P * Q) + ((I * P + p) * Q + q) = J * (length ?ds3 * (P * Q)) + (I * (P * Q) + (p * Q + q))"
    by (simp add: algebra_simps)
  also have "D3 ! (J * (length ?ds3 * (P * Q)) + (I * (P * Q) + (p * Q + q))) = ?ds3 ! I ! (J * (P * Q) + (p * Q + q))"
    unfolding D3_def
    by (rule concat_chunks_nth) (use len3 v assms(2,3) in simp_all)
  also have "?ds3 ! I = chunk (N * (P * Q)) I od" using assms(2) by simp
  also have "chunk (N * (P * Q)) I od ! (J * (P * Q) + (p * Q + q)) = od ! (I * (N * (P * Q)) + (J * (P * Q) + (p * Q + q)))"
  proof (rule chunk_nth)
    have "(I + 1) * (N * (P * Q)) \<le> M * (N * (P * Q))" using assms(2) by (rule row_bound)
    then show "(I + 1) * (N * (P * Q)) \<le> length od" using lenod by (simp add: mult.assoc)
    show "J * (P * Q) + (p * Q + q) < N * (P * Q)" using assms(3) v by (rule flat_index_lt)
  qed
  also have "I * (N * (P * Q)) + (J * (P * Q) + (p * Q + q)) = (I * N + J) * (P * Q) + (p * Q + q)"
    by (simp add: algebra_simps)
  finally show "D2 ! ((I * P + p) * (N * Q) + (J * Q + q)) = od ! ((I * N + J) * (P * Q) + (p * Q + q))"
    using a by simp
qed

text \<open>
  On a first argument with at least one row and one column \<^verbatim>\<open>kron\<close> is the block
  matrix of the docstring: shape \<open>(M*P, N*Q)\<close>, and the block at rows \<open>I*P ..< (I+1)*P\<close>
  and columns \<open>J*Q ..< (J+1)*Q\<close> is \<open>a[I,J] * b\<close>.
\<close>

lemma kron_blocks:
  fixes a b :: "('a::times) ndarray"
  assumes "shape a = [M, N]" "wf a" "shape b = [P, Q]" "wf b" "0 < M" "0 < N"
  shows "\<exists>K. kron a b = Inr K \<and> shape K = [M * P, N * Q] \<and> wf K \<and>
           (\<forall>I J p q. I < M \<and> J < N \<and> p < P \<and> q < Q \<longrightarrow>
              item K (I * P + p) (J * Q + q) = item a I J * item b p q)"
proof -
  define od where "od = data (outer a b)"
  define D3 where "D3 = concat (map (\<lambda>i. concat (map (\<lambda>d. chunk (P * Q) i d)
                                  (map (\<lambda>I. chunk (N * (P * Q)) I od) [0..<M]))) [0..<N])"
  define D2 where "D2 = concat (map (\<lambda>s. concat (map (\<lambda>d. chunk Q s d)
                                  (map (\<lambda>J. chunk (M * P * Q) J D3) [0..<N]))) [0..<M * P])"
  let ?K = "\<lparr>shape = [M * P, N * Q], data = D2\<rparr>"
  have lena: "length (data a) = M * N" and lenb: "length (data b) = P * Q"
    using assms(1-4) by (simp_all add: wf_def)
  have lenod: "length od = M * N * (P * Q)" by (simp add: od_def outer_length lena lenb)
  have K: "kron a b = Inr ?K"
    using kron_2d [OF assms] by (simp add: D2_def D3_def od_def)
  have lenD2: "length D2 = M * P * (N * Q)" if "0 < P" "0 < Q"
    using kron_data_nth(2) [OF lenod assms(5,6) that] by (simp add: D2_def D3_def)
  have wfK: "wf ?K"
  proof (cases "0 < P \<and> 0 < Q")
    case True
    then show ?thesis using lenD2 by (simp add: wf_def)
  next
    case False
    then have z: "P = 0 \<or> Q = 0" by auto
    have "D2 = []"
    proof (cases "P = 0")
      case True
      then show ?thesis by (simp add: D2_def)
    next
      case False
      then have "Q = 0" using z by simp
      then show ?thesis by (simp add: D2_def chunk_def)
    qed
    then show ?thesis using z by (auto simp add: wf_def)
  qed
  have items: "item ?K (I * P + p) (J * Q + q) = item a I J * item b p q"
    if "I < M" "J < N" "p < P" "q < Q" for I J p q
  proof -
    have r: "I * N + J < length (data a)" using flat_index_lt [OF that(1,2)] lena by simp
    have v: "p * Q + q < length (data b)" using flat_index_lt [OF that(3,4)] lenb by simp
    have "D2 ! ((I * P + p) * (N * Q) + (J * Q + q)) = od ! ((I * N + J) * (P * Q) + (p * Q + q))"
      using kron_data_nth(1) [OF lenod that] by (simp add: D2_def D3_def)
    also have "\<dots> = data a ! (I * N + J) * data b ! (p * Q + q)"
      using outer_nth [OF r v] by (simp add: od_def lenb)
    finally show ?thesis using assms(1,3) by (simp add: item_def)
  qed
  show ?thesis using K wfK items by (intro exI [of _ ?K]) simp
qed

text \<open>
  C7. The claim is that for all two-dimensional \<open>a\<close> of shape \<open>(M, N)\<close> and \<open>b\<close> of shape
  \<open>(P, Q)\<close>, \<^verbatim>\<open>kron(a, b)\<close> has shape \<open>(M*P, N*Q)\<close> with block \<open>(I, J)\<close> equal to
  \<open>a[I,J] * b\<close>. The code does so when \<open>a\<close> has a row and a column, and also when \<open>b\<close> is
  empty; but for an \<open>a\<close> without rows, or without columns, \<^verbatim>\<open>np.concatenate\<close> is handed an
  empty sequence and the call raises \<^verbatim>\<open>ValueError\<close> where an empty array of shape
  \<open>(0, N*Q)\<close> or \<open>(M*P, 0)\<close> is due.
\<close>

theorem kron_empty_first_argument:
  "kron \<lparr>shape = [0, 2], data = []\<rparr> \<lparr>shape = [1, 3], data = [1, 1, 1 :: int]\<rparr> = Inl ValueError_numpy \<and>
   kron \<lparr>shape = [2, 0], data = []\<rparr> \<lparr>shape = [1, 3], data = [1, 1, 1 :: int]\<rparr> = Inl ValueError_numpy \<and>
   kron \<lparr>shape = [2, 2], data = [1, 2, 3, 4]\<rparr> \<lparr>shape = [0, 3], data = [] :: int list\<rparr>
     = Inr \<lparr>shape = [0, 6], data = []\<rparr>"
  by code_simp

lemma broadcast_to_same_item:
  assumes "shape B = [rr, cc]" "i < rr" "j < cc"
  shows "item (broadcast_to [rr, cc] B) i j = item B i j"
proof -
  have k: "i * cc + j < prod_list [rr, cc]" using flat_index_lt [OF assms(2,3)] by simp
  have "data (broadcast_to [rr, cc] B) ! (i * cc + j)
        = data B ! ravel_index [rr, cc]
            (map2 (\<lambda>d i. if d = Suc 0 then 0 else i) [rr, cc] (unravel [rr, cc] (i * cc + j)))"
    using k assms(1)
    by (simp add: broadcast_to_def pad_shape_def Let_def del: unravel.simps ravel_index.simps)
  also have "\<dots> = data B ! (i * cc + j)"
    using broadcast_same_index [OF k] ravel_unravel [OF k] by simp
  finally show ?thesis using assms(1) by (simp add: item_def broadcast_to_def pad_shape_def)
qed

lemma setitem_block_fit:
  assumes "shape out = [R, C]" "wf out" "shape B = [rr, cc]" "r + rr \<le> R" "c + cc \<le> C"
  shows "\<exists>out1. setitem_block conv out r (r + rr) c (c + cc) B = Inr out1 \<and>
           shape out1 = [R, C] \<and> wf out1 \<and>
           (\<forall>x y. x < R \<and> y < C \<longrightarrow>
              item out1 x y = (if r \<le> x \<and> x < r + rr \<and> c \<le> y \<and> y < c + cc
                               then conv (item B (x - r) (y - c)) else item out x y))"
proof -
  let ?V = "broadcast_to [rr, cc] B"
  let ?f = "\<lambda>k. if r \<le> k div C \<and> k div C < r + rr \<and> c \<le> k mod C \<and> k mod C < c + cc
                 then conv (item ?V (k div C - r) (k mod C - c)) else data out ! k"
  let ?out1 = "out\<lparr>data := map ?f [0..<length (data out)]\<rparr>"
  have len: "length (data out) = R * C" using assms(1,2) by (simp add: wf_def)
  have bounds: "min r R = r" "min (r + rr) R = r + rr" "max r (r + rr) = r + rr"
               "min c C = c" "min (c + cc) C = c + cc" "max c (c + cc) = c + cc"
    using assms(4,5) by simp_all
  have bs: "broadcast_shapes (shape B) [rr, cc] = Some [rr, cc]"
    using assms(3) by (simp add: broadcast_shapes_same)
  have eq: "setitem_block conv out r (r + rr) c (c + cc) B = Inr ?out1"
    using assms(1) bs by (simp add: setitem_block_def Let_def bounds)
  have items: "item ?out1 x y = (if r \<le> x \<and> x < r + rr \<and> c \<le> y \<and> y < c + cc
                               then conv (item B (x - r) (y - c)) else item out x y)"
    if "x < R" "y < C" for x y
  proof -
    have k: "x * C + y < R * C" using that by (rule flat_index_lt)
    have dm: "(x * C + y) div C = x" "(x * C + y) mod C = y" using that(2) by simp_all
    have "item ?out1 x y = ?f (x * C + y)" using k len assms(1) by (simp add: item_def)
    also have "\<dots> = (if r \<le> x \<and> x < r + rr \<and> c \<le> y \<and> y < c + cc
                      then conv (item ?V (x - r) (y - c)) else item out x y)"
      unfolding dm using assms(1) by (simp add: item_def)
    also have "\<dots> = (if r \<le> x \<and> x < r + rr \<and> c \<le> y \<and> y < c + cc
                      then conv (item B (x - r) (y - c)) else item out x y)"
    proof -
      have "item ?V (x - r) (y - c) = item B (x - r) (y - c)"
        if "r \<le> x \<and> x < r + rr \<and> c \<le> y \<and> y < c + cc"
      proof -
        have "x - r < rr" "y - c < cc" using that by auto
        then show ?thesis using assms(3) by (intro broadcast_to_same_item)
      qed
      then show ?thesis by (intro if_cong refl arg_cong [where f = conv])
    qed
    finally show ?thesis .
  qed
  have "shape ?out1 = [R, C]" "wf ?out1" using assms(1) len by (simp_all add: wf_def)
  then show ?thesis using eq items by blast
qed

lemma block_at_before: "x < r \<Longrightarrow> block_at bs r c x y = None"
  by (induction bs arbitrary: r c) auto

lemma place_spec:
  assumes "shape out = [R, C]" "wf out"
    and "\<And>B. B \<in> set bs \<Longrightarrow> \<exists>rr cc. shape B = [rr, cc]"
    and "r + sum_list (map nrows bs) \<le> R" "c + sum_list (map ncols bs) \<le> C"
  shows "\<exists>res. place conv bs out r c = Inr res \<and> shape res = [R, C] \<and> wf res \<and>
           (\<forall>x y. x < R \<and> y < C \<longrightarrow>
              item res x y = (case block_at bs r c x y of Some v \<Rightarrow> conv v | None \<Rightarrow> item out x y))"
  using assms
proof (induction bs arbitrary: out r c)
  case Nil
  then show ?case by simp
next
  case (Cons B bs)
  obtain rr cc where shB: "shape B = [rr, cc]" using Cons.prems(3) [of B] by auto
  have rc: "nrows B = rr" "ncols B = cc" using shB by (simp_all add: nrows_def ncols_def)
  have fit: "r + rr \<le> R" "c + cc \<le> C" using Cons.prems(4,5) rc by simp_all
  from setitem_block_fit [OF Cons.prems(1,2) shB fit, of conv] obtain out1 where
    o1: "setitem_block conv out r (r + rr) c (c + cc) B = Inr out1" "shape out1 = [R, C]" "wf out1"
    and i1: "\<And>x y. x < R \<Longrightarrow> y < C \<Longrightarrow>
              item out1 x y = (if r \<le> x \<and> x < r + rr \<and> c \<le> y \<and> y < c + cc
                               then conv (item B (x - r) (y - c)) else item out x y)"
    by blast
  have rest: "\<And>B'. B' \<in> set bs \<Longrightarrow> \<exists>rr cc. shape B' = [rr, cc]" using Cons.prems(3) by simp
  have fit': "r + rr + sum_list (map nrows bs) \<le> R" "c + cc + sum_list (map ncols bs) \<le> C"
    using Cons.prems(4,5) rc by simp_all
  from Cons.IH [OF o1(2,3) rest fit'] obtain res where
    res: "place conv bs out1 (r + rr) (c + cc) = Inr res" "shape res = [R, C]" "wf res"
    and ir: "\<And>x y. x < R \<Longrightarrow> y < C \<Longrightarrow>
              item res x y = (case block_at bs (r + rr) (c + cc) x y of Some v \<Rightarrow> conv v
                              | None \<Rightarrow> item out1 x y)"
    by blast
  have pl: "place conv (B # bs) out r c = Inr res"
    using o1(1) res(1) shB by (simp add: and_then_def)
  have "item res x y = (case block_at (B # bs) r c x y of Some v \<Rightarrow> conv v | None \<Rightarrow> item out x y)"
    if "x < R" "y < C" for x y
  proof (cases "r \<le> x \<and> x < r + rr \<and> c \<le> y \<and> y < c + cc")
    case True
    then have "block_at bs (r + rr) (c + cc) x y = None" by (simp add: block_at_before)
    then have "item res x y = item out1 x y" using ir [OF that] by simp
    then show ?thesis using i1 [OF that] True rc by simp
  next
    case False
    have "item out1 x y = (if r \<le> x \<and> x < r + rr \<and> c \<le> y \<and> y < c + cc
                               then conv (item B (x - r) (y - c)) else item out x y)"
      using that by (rule i1)
    also have "\<dots> = item out x y" using False by (rule if_not_P)
    finally have e1: "item out1 x y = item out x y" .
    have e2: "block_at (B # bs) r c x y = block_at bs (r + rr) (c + cc) x y"
      unfolding block_at.simps rc using False by (rule if_not_P)
    show ?thesis unfolding e2 ir [OF that] e1 by (rule refl)
  qed
  then show ?case using pl res(2,3) by blast
qed

lemma block_at_inside:
  assumes "i < length bs" "p < nrows (bs ! i)" "q < ncols (bs ! i)"
  shows "block_at bs r c (r + sum_list (map nrows (take i bs)) + p)
                         (c + sum_list (map ncols (take i bs)) + q)
         = Some (item (bs ! i) p q)"
  using assms
proof (induction bs arbitrary: i r c)
  case Nil
  then show ?case by simp
next
  case (Cons B bs)
  show ?case
  proof (cases i)
    case 0
    then show ?thesis using Cons.prems by simp
  next
    case (Suc i')
    have "block_at bs (r + nrows B) (c + ncols B)
            (r + nrows B + sum_list (map nrows (take i' bs)) + p)
            (c + ncols B + sum_list (map ncols (take i' bs)) + q)
          = Some (item (bs ! i') p q)"
      using Cons.prems Suc by (intro Cons.IH) simp_all
    then show ?thesis using Suc by (simp add: add.assoc)
  qed
qed

lemma block_at_outside:
  assumes "\<And>i. i < length bs \<Longrightarrow>
             \<not> (r + sum_list (map nrows (take i bs)) \<le> x \<and>
                x < r + sum_list (map nrows (take i bs)) + nrows (bs ! i) \<and>
                c + sum_list (map ncols (take i bs)) \<le> y \<and>
                y < c + sum_list (map ncols (take i bs)) + ncols (bs ! i))"
  shows "block_at bs r c x y = None"
  using assms
proof (induction bs arbitrary: r c)
  case Nil
  then show ?case by simp
next
  case (Cons B bs)
  have first: "\<not> (r \<le> x \<and> x < r + nrows B \<and> c \<le> y \<and> y < c + ncols B)"
    using Cons.prems [of 0] by simp
  have "block_at bs (r + nrows B) (c + ncols B) x y = None"
  proof (rule Cons.IH)
    fix i assume "i < length bs"
    then show "\<not> (r + nrows B + sum_list (map nrows (take i bs)) \<le> x \<and>
                x < r + nrows B + sum_list (map nrows (take i bs)) + nrows (bs ! i) \<and>
                c + ncols B + sum_list (map ncols (take i bs)) \<le> y \<and>
                y < c + ncols B + sum_list (map ncols (take i bs)) + ncols (bs ! i))"
      using Cons.prems [of "Suc i"] by (simp add: add.assoc)
  qed
  then show ?case unfolding block_at.simps using first by simp
qed

lemma atleast_2d_shape: "ndim A \<le> 2 \<Longrightarrow> \<exists>rr cc. shape (atleast_2d A) = [rr, cc]"
proof -
  assume a: "ndim A \<le> 2"
  consider "shape A = []" | d where "shape A = [d]" | d e where "shape A = [d, e]"
  proof (cases "shape A")
    case Nil
    then show ?thesis using that by simp
  next
    case (Cons d ds)
    then show ?thesis using that a by (cases ds) (auto simp add: ndim_def)
  qed
  then show ?thesis by cases (simp_all add: atleast_2d_def ndim_def)
qed

lemma atleast_2d_ndim: "(2 < ndim (atleast_2d A)) = (2 < ndim A)"
  by (simp add: atleast_2d_def ndim_def)

lemma atleast_2d_wf: "wf A \<Longrightarrow> wf (atleast_2d A)"
  by (auto simp add: atleast_2d_def ndim_def wf_def)

lemma atleast_2d_item_1d: "shape A = [n] \<Longrightarrow> item (atleast_2d A) 0 q = data A ! q"
  by (simp add: atleast_2d_def ndim_def item_def)

lemma zeros_item: "x < R \<Longrightarrow> y < C \<Longrightarrow> item (zeros [R, C]) x y = 0"
  using flat_index_lt [of x R y C] by (simp add: zeros_def item_def)

lemma zeros_wf: "wf (zeros s)"
  by (simp add: zeros_def wf_def)

lemma block_diag_no_args:
  "block_diag conv ([] :: ('a::zero) typed list)
   = Inr \<lparr>dtype_of = Float_dtype, array_of = \<lparr>shape = [1, 0], data = []\<rparr>\<rparr>"
  by (simp add: block_diag_def empty_list_array_def atleast_2d_def ndim_def zeros_def
      setitem_block_def broadcast_shapes_def pad_shape_def and_then_def Let_def)

lemma block_diag_bad_args:
  fixes args :: "('a::zero) typed list"
  assumes "\<exists>a \<in> set args. 2 < ndim (array_of a)"
  shows "block_diag conv args
         = Inl (ValueError_dimension (filter (\<lambda>k. 2 < ndim (array_of (args ! k))) [0..<length args]))"
proof -
  let ?arrs = "map (\<lambda>a. a\<lparr>array_of := atleast_2d (array_of a)\<rparr>) args"
  have ne: "args \<noteq> []" using assms by auto
  have bad: "filter (\<lambda>k. 2 < ndim (array_of (?arrs ! k))) [0..<length ?arrs]
             = filter (\<lambda>k. 2 < ndim (array_of (args ! k))) [0..<length args]"
    by (rule filter_cong) (simp_all add: atleast_2d_ndim)
  from assms obtain k where k: "k < length args" "2 < ndim (array_of (args ! k))"
    by (metis in_set_conv_nth)
  then have "k \<in> set (filter (\<lambda>k. 2 < ndim (array_of (args ! k))) [0..<length args])" by simp
  then have "filter (\<lambda>k. 2 < ndim (array_of (args ! k))) [0..<length args] \<noteq> []"
    by (metis empty_iff list.set(1))
  then show ?thesis using ne bad by (simp add: block_diag_def Let_def)
qed

lemma block_diag_run:
  fixes args :: "('a::zero) typed list"
  assumes "args \<noteq> []" "\<And>a. a \<in> set args \<Longrightarrow> ndim (array_of a) \<le> 2"
  defines "bs \<equiv> map (\<lambda>a. atleast_2d (array_of a)) args"
  defines "R \<equiv> sum_list (map nrows bs)" and "C \<equiv> sum_list (map ncols bs)"
  shows "\<exists>res. block_diag conv args = Inr \<lparr>dtype_of = dtype_of (hd args), array_of = res\<rparr> \<and>
           shape res = [R, C] \<and> wf res \<and>
           (\<forall>x y. x < R \<and> y < C \<longrightarrow>
              item res x y = (case block_at bs 0 0 x y of
                                Some v \<Rightarrow> conv (dtype_of (hd args)) v | None \<Rightarrow> 0))"
proof -
  let ?arrs = "map (\<lambda>a. a\<lparr>array_of := atleast_2d (array_of a)\<rparr>) args"
  obtain a0 rest where args: "args = a0 # rest" using assms(1) by (cases args) auto
  have bad: "filter (\<lambda>k. 2 < ndim (array_of (?arrs ! k))) [0..<length ?arrs] = []"
  proof -
    have "\<not> 2 < ndim (array_of (?arrs ! k))" if "k < length args" for k
      using assms(2) [of "args ! k"] that by (simp add: atleast_2d_ndim not_less)
    then show ?thesis by (simp add: filter_empty_conv)
  qed
  have arrs_bs: "map array_of ?arrs = bs" by (simp add: bs_def comp_def)
  have rows: "sum_list (map (\<lambda>s. s ! 0) (map (\<lambda>a. shape (array_of a)) ?arrs)) = R"
    by (simp add: R_def bs_def comp_def nrows_def)
  have cols: "sum_list (map (\<lambda>s. s ! 1) (map (\<lambda>a. shape (array_of a)) ?arrs)) = C"
    by (simp add: C_def bs_def comp_def ncols_def)
  have first: "?arrs = a0\<lparr>array_of := atleast_2d (array_of a0)\<rparr> # map (\<lambda>a. a\<lparr>array_of := atleast_2d (array_of a)\<rparr>) rest"
    by (simp add: args)
  have two: "\<And>B. B \<in> set bs \<Longrightarrow> \<exists>rr cc. shape B = [rr, cc]"
    using assms(2) by (auto simp add: bs_def atleast_2d_shape)
  have "\<exists>res. place (conv (dtype_of a0)) bs (zeros [R, C]) 0 0 = Inr res \<and> shape res = [R, C] \<and> wf res \<and>
           (\<forall>x y. x < R \<and> y < C \<longrightarrow>
              item res x y = (case block_at bs 0 0 x y of Some v \<Rightarrow> conv (dtype_of a0) v
                              | None \<Rightarrow> item (zeros [R, C]) x y))"
  proof (rule place_spec)
    show "shape (zeros [R, C] :: 'a ndarray) = [R, C]" by (simp add: zeros_def)
    show "wf (zeros [R, C] :: 'a ndarray)" by (rule zeros_wf)
    show "\<And>B. B \<in> set bs \<Longrightarrow> \<exists>rr cc. shape B = [rr, cc]" by (rule two)
    show "0 + sum_list (map nrows bs) \<le> R" by (simp add: R_def)
    show "0 + sum_list (map ncols bs) \<le> C" by (simp add: C_def)
  qed
  then obtain res where
    res: "place (conv (dtype_of a0)) bs (zeros [R, C]) 0 0 = Inr res" "shape res = [R, C]" "wf res"
    and items: "\<And>x y. x < R \<Longrightarrow> y < C \<Longrightarrow>
              item res x y = (case block_at bs 0 0 x y of Some v \<Rightarrow> conv (dtype_of a0) v
                              | None \<Rightarrow> item (zeros [R, C]) x y)"
    by blast
  have items0: "item res x y = (case block_at bs 0 0 x y of Some v \<Rightarrow> conv (dtype_of a0) v | None \<Rightarrow> 0)"
    if "x < R" "y < C" for x y
    unfolding items [OF that] zeros_item [OF that] by (rule refl)
  have run: "block_diag conv args = Inr \<lparr>dtype_of = dtype_of a0, array_of = res\<rparr>"
    apply (unfold block_diag_def Let_def if_not_P [OF assms(1)])
    apply (unfold bad rows cols arrs_bs)
    apply (unfold first list.case)
    apply (simp add: res(1) and_then_def)
    done
  have hd: "hd args = a0" by (simp add: args)
  show ?thesis unfolding hd using run res(2,3) items0 by blast
qed

text \<open>
  C8. For every non-empty sequence of blocks of at most two dimensions (a scalar becomes a
  \<open>1 \<times> 1\<close> block and a sequence of length \<open>n\<close> a \<open>1 \<times> n\<close> block), \<^verbatim>\<open>block_diag\<close> returns
  an array of shape (sum of block rows, sum of block columns) with the dtype of the first
  block; block \<open>i\<close>, converted to that dtype, lies at the cumulative row and column offset
  of the blocks before it, and every element outside the blocks is zero.
  \<^verbatim>\<open>block_diag([[1,2,3]], [[4]])\<close> is \<open>[[1,2,3,0],[0,0,0,4]]\<close>, and \<^verbatim>\<open>block_diag()\<close>
  returns an empty array of shape \<open>(1, 0)\<close> without raising.
\<close>

theorem block_diag_spec:
  fixes args :: "('a::zero) typed list"
  assumes "args \<noteq> []" "\<forall>a \<in> set args. ndim (array_of a) \<le> 2"
  shows "(\<exists>out. block_diag conv args = Inr out \<and>
            dtype_of out = dtype_of (hd args) \<and>
            shape (array_of out) = [sum_list (map nrows (blocks_2d args)),
                                    sum_list (map ncols (blocks_2d args))] \<and>
            wf (array_of out) \<and>
            (\<forall>i p q. i < length args \<and> p < nrows (blocks_2d args ! i) \<and> q < ncols (blocks_2d args ! i) \<longrightarrow>
               item (array_of out) (row_offset (blocks_2d args) i + p) (col_offset (blocks_2d args) i + q)
               = conv (dtype_of (hd args)) (item (blocks_2d args ! i) p q)) \<and>
            (\<forall>x y. x < sum_list (map nrows (blocks_2d args)) \<and> y < sum_list (map ncols (blocks_2d args)) \<and>
               (\<forall>i < length args.
                  \<not> (row_offset (blocks_2d args) i \<le> x \<and>
                     x < row_offset (blocks_2d args) i + nrows (blocks_2d args ! i) \<and>
                     col_offset (blocks_2d args) i \<le> y \<and>
                     y < col_offset (blocks_2d args) i + ncols (blocks_2d args ! i)))
               \<longrightarrow> item (array_of out) x y = 0)) \<and>
         atleast_2d \<lparr>shape = [], data = [v]\<rparr> = \<lparr>shape = [1, 1], data = [v]\<rparr> \<and>
         atleast_2d \<lparr>shape = [n], data = vs\<rparr> = \<lparr>shape = [1, n], data = vs\<rparr> \<and>
         block_diag astype_int
           [\<lparr>dtype_of = Int_dtype, array_of = \<lparr>shape = [1, 3], data = [1, 2, 3]\<rparr>\<rparr>,
            \<lparr>dtype_of = Int_dtype, array_of = \<lparr>shape = [1, 1], data = [4]\<rparr>\<rparr>]
         = Inr \<lparr>dtype_of = Int_dtype, array_of = \<lparr>shape = [2, 4], data = [1, 2, 3, 0,  0, 0, 0, 4]\<rparr>\<rparr> \<and>
         block_diag conv ([] :: 'a typed list)
         = Inr \<lparr>dtype_of = Float_dtype, array_of = \<lparr>shape = [1, 0], data = []\<rparr>\<rparr>"
proof (intro conjI)
  let ?bs = "blocks_2d args"
  let ?R = "sum_list (map nrows ?bs)" and ?C = "sum_list (map ncols ?bs)"
  let ?d = "dtype_of (hd args)"
  have nd: "\<And>a. a \<in> set args \<Longrightarrow> ndim (array_of a) \<le> 2" using assms(2) by blast
  from block_diag_run [OF assms(1) nd, of conv] obtain res where
    run: "block_diag conv args = Inr \<lparr>dtype_of = ?d, array_of = res\<rparr>"
    and sh: "shape res = [?R, ?C]" and wfr: "wf res"
    and items: "\<And>x y. x < ?R \<Longrightarrow> y < ?C \<Longrightarrow>
              item res x y = (case block_at ?bs 0 0 x y of Some v \<Rightarrow> conv ?d v | None \<Rightarrow> 0)"
    unfolding blocks_2d_def by blast
  have len: "length ?bs = length args" by (simp add: blocks_2d_def)
  have inside: "item res (row_offset ?bs i + p) (col_offset ?bs i + q) = conv ?d (item (?bs ! i) p q)"
    if "i < length args" "p < nrows (?bs ! i)" "q < ncols (?bs ! i)" for i p q
  proof -
    have i: "i < length ?bs" using that(1) len by simp
    have at: "block_at ?bs 0 0 (row_offset ?bs i + p) (col_offset ?bs i + q) = Some (item (?bs ! i) p q)"
      using block_at_inside [OF i that(2,3), of 0 0] by (simp add: row_offset_def col_offset_def)
    have split: "?bs = take i ?bs @ (?bs ! i) # drop (Suc i) ?bs"
      using i by (simp add: id_take_nth_drop)
    have "?R = row_offset ?bs i + nrows (?bs ! i) + sum_list (map nrows (drop (Suc i) ?bs))"
      by (subst split) (simp add: row_offset_def)
    then have x: "row_offset ?bs i + p < ?R" using that(2) by linarith
    have "?C = col_offset ?bs i + ncols (?bs ! i) + sum_list (map ncols (drop (Suc i) ?bs))"
      by (subst split) (simp add: col_offset_def)
    then have y: "col_offset ?bs i + q < ?C" using that(3) by linarith
    show ?thesis unfolding items [OF x y] at by simp
  qed
  have outside: "item res x y = 0"
    if "x < ?R" "y < ?C"
      "\<forall>i < length args. \<not> (row_offset ?bs i \<le> x \<and> x < row_offset ?bs i + nrows (?bs ! i) \<and>
                               col_offset ?bs i \<le> y \<and> y < col_offset ?bs i + ncols (?bs ! i))" for x y
  proof -
    have "block_at ?bs 0 0 x y = None"
    proof (rule block_at_outside)
      fix i assume "i < length ?bs"
      then have "i < length args" using len by simp
      then show "\<not> (0 + sum_list (map nrows (take i ?bs)) \<le> x \<and>
                x < 0 + sum_list (map nrows (take i ?bs)) + nrows (?bs ! i) \<and>
                0 + sum_list (map ncols (take i ?bs)) \<le> y \<and>
                y < 0 + sum_list (map ncols (take i ?bs)) + ncols (?bs ! i))"
        using that(3) by (simp add: row_offset_def col_offset_def)
    qed
    then show ?thesis unfolding items [OF that(1,2)] by simp
  qed
  show "\<exists>out. block_diag conv args = Inr out \<and>
            dtype_of out = ?d \<and> shape (array_of out) = [?R, ?C] \<and> wf (array_of out) \<and>
            (\<forall>i p q. i < length args \<and> p < nrows (?bs ! i) \<and> q < ncols (?bs ! i) \<longrightarrow>
               item (array_of out) (row_offset ?bs i + p) (col_offset ?bs i + q)
               = conv ?d (item (?bs ! i) p q)) \<and>
            (\<forall>x y. x < ?R \<and> y < ?C \<and>
               (\<forall>i < length args.
                  \<not> (row_offset ?bs i \<le> x \<and> x < row_offset ?bs i + nrows (?bs ! i) \<and>
                     col_offset ?bs i \<le> y \<and> y < col_offset ?bs i + ncols (?bs ! i)))
               \<longrightarrow> item (array_of out) x y = 0)"
    using run sh wfr inside outside
    by (intro exI [of _ "\<lparr>dtype_of = ?d, array_of = res\<rparr>"]) simp
  show "atleast_2d \<lparr>shape = [], data = [v]\<rparr> = \<lparr>shape = [1, 1], data = [v]\<rparr>"
    by (simp add: atleast_2d_def ndim_def)
  show "atleast_2d \<lparr>shape = [n], data = vs\<rparr> = \<lparr>shape = [1, n], data = vs\<rparr>"
    by (simp add: atleast_2d_def ndim_def)
  show "block_diag astype_int
           [\<lparr>dtype_of = Int_dtype, array_of = \<lparr>shape = [1, 3], data = [1, 2, 3]\<rparr>\<rparr>,
            \<lparr>dtype_of = Int_dtype, array_of = \<lparr>shape = [1, 1], data = [4]\<rparr>\<rparr>]
         = Inr \<lparr>dtype_of = Int_dtype, array_of = \<lparr>shape = [2, 4], data = [1, 2, 3, 0,  0, 0, 0, 4]\<rparr>\<rparr>"
    by code_simp
  show "block_diag conv ([] :: 'a typed list)
         = Inr \<lparr>dtype_of = Float_dtype, array_of = \<lparr>shape = [1, 0], data = []\<rparr>\<rparr>"
    by (rule block_diag_no_args)
qed


theorem block_diag_spec_witness:
  "\<exists>out. block_diag astype_int
           [\<lparr>dtype_of = Int_dtype, array_of = \<lparr>shape = [1, 3], data = [1, 2, 3]\<rparr>\<rparr>,
            \<lparr>dtype_of = Int_dtype, array_of = \<lparr>shape = [1, 1], data = [4]\<rparr>\<rparr>] = Inr out \<and>
         dtype_of out = Int_dtype \<and> shape (array_of out) = [2, 4] \<and>
         item (array_of out) 1 3 = 4 \<and> item (array_of out) 0 3 = 0"
proof -
  let ?A = "\<lparr>dtype_of = Int_dtype, array_of = \<lparr>shape = [1, 3], data = [1, 2, 3 :: int]\<rparr>\<rparr>"
  let ?B = "\<lparr>dtype_of = Int_dtype, array_of = \<lparr>shape = [1, 1], data = [4 :: int]\<rparr>\<rparr>"
  let ?args = "[?A, ?B]"
  have h: "?args \<noteq> []" "\<forall>a \<in> set ?args. ndim (array_of a) \<le> 2"
    by (simp_all add: ndim_def)
  have bs: "blocks_2d ?args = [\<lparr>shape = [1, 3], data = [1, 2, 3]\<rparr>, \<lparr>shape = [1, 1], data = [4]\<rparr>]"
    by (simp add: blocks_2d_def atleast_2d_def ndim_def)
  from block_diag_spec [OF h, of astype_int, THEN conjunct1] obtain out where
    run: "block_diag astype_int ?args = Inr out" "dtype_of out = dtype_of (hd ?args)"
      "shape (array_of out) = [sum_list (map nrows (blocks_2d ?args)), sum_list (map ncols (blocks_2d ?args))]"
    and inside: "\<forall>i p q. i < length ?args \<and> p < nrows (blocks_2d ?args ! i) \<and> q < ncols (blocks_2d ?args ! i) \<longrightarrow>
               item (array_of out) (row_offset (blocks_2d ?args) i + p) (col_offset (blocks_2d ?args) i + q)
               = astype_int (dtype_of (hd ?args)) (item (blocks_2d ?args ! i) p q)"
    and outside: "\<forall>x y. x < sum_list (map nrows (blocks_2d ?args)) \<and> y < sum_list (map ncols (blocks_2d ?args)) \<and>
               (\<forall>i < length ?args.
                  \<not> (row_offset (blocks_2d ?args) i \<le> x \<and>
                     x < row_offset (blocks_2d ?args) i + nrows (blocks_2d ?args ! i) \<and>
                     col_offset (blocks_2d ?args) i \<le> y \<and>
                     y < col_offset (blocks_2d ?args) i + ncols (blocks_2d ?args ! i)))
               \<longrightarrow> item (array_of out) x y = 0"
    by blast
  have sh: "shape (array_of out) = [2, 4]"
    using run(3) unfolding bs by (simp add: nrows_def ncols_def)
  have "item (array_of out) (row_offset (blocks_2d ?args) 1 + 0) (col_offset (blocks_2d ?args) 1 + 0)
        = astype_int (dtype_of (hd ?args)) (item (blocks_2d ?args ! 1) 0 0)"
    using inside [rule_format, of 1 0 0] unfolding bs by (simp add: nrows_def ncols_def)
  then have a: "item (array_of out) 1 3 = 4"
    unfolding bs by (simp add: row_offset_def col_offset_def nrows_def ncols_def item_def)
  have "\<forall>i < length ?args.
          \<not> (row_offset (blocks_2d ?args) i \<le> 0 \<and>
             0 < row_offset (blocks_2d ?args) i + nrows (blocks_2d ?args ! i) \<and>
             col_offset (blocks_2d ?args) i \<le> 3 \<and>
             3 < col_offset (blocks_2d ?args) i + ncols (blocks_2d ?args ! i))"
    unfolding bs by (simp add: row_offset_def col_offset_def nrows_def ncols_def less_Suc_eq all_conj_distrib)
  then have b: "item (array_of out) 0 3 = 0"
    using outside [rule_format, of 0 3] unfolding bs by (simp add: nrows_def ncols_def)
  show ?thesis using run(1,2) sh a b by auto
qed

text \<open>
  C9. \<^verbatim>\<open>block_diag\<close> raises if and only if at least one of its blocks has more than two
  dimensions; the error then lists the 0-indexed positions of all such blocks, and no
  array is returned.
\<close>

theorem block_diag_raises_iff:
  fixes args :: "('a::zero) typed list"
  shows "((\<exists>e. block_diag conv args = Inl e) \<longleftrightarrow> (\<exists>a \<in> set args. 2 < ndim (array_of a))) \<and>
         ((\<exists>a \<in> set args. 2 < ndim (array_of a)) \<longrightarrow>
            block_diag conv args
            = Inl (ValueError_dimension
                     (filter (\<lambda>k. 2 < ndim (array_of (args ! k))) [0..<length args])))"
proof -
  have ok: "\<exists>out. block_diag conv args = Inr out" if "\<not> (\<exists>a \<in> set args. 2 < ndim (array_of a))"
  proof (cases "args = []")
    case True
    then show ?thesis by (simp add: block_diag_no_args)
  next
    case False
    have "\<And>a. a \<in> set args \<Longrightarrow> ndim (array_of a) \<le> 2" using that by (auto simp add: not_less)
    from block_diag_run [OF False this, of conv] show ?thesis by blast
  qed
  have bad: "block_diag conv args
             = Inl (ValueError_dimension (filter (\<lambda>k. 2 < ndim (array_of (args ! k))) [0..<length args]))"
    if "\<exists>a \<in> set args. 2 < ndim (array_of a)"
    using that by (rule block_diag_bad_args)
  show ?thesis
  proof (cases "\<exists>a \<in> set args. 2 < ndim (array_of a)")
    case True
    then show ?thesis using bad [OF True] by simp
  next
    case False
    then show ?thesis using ok [OF False] by auto
  qed
qed

theorem block_diag_raises_iff_witness:
  "block_diag astype_int
     [\<lparr>dtype_of = Int_dtype, array_of = \<lparr>shape = [1, 1], data = [4]\<rparr>\<rparr>,
      \<lparr>dtype_of = Int_dtype, array_of = \<lparr>shape = [1, 1, 2], data = [5, 6]\<rparr>\<rparr>]
   = Inl (ValueError_dimension [1])"
proof -
  let ?A = "\<lparr>dtype_of = Int_dtype, array_of = \<lparr>shape = [1, 1], data = [4 :: int]\<rparr>\<rparr>"
  let ?B = "\<lparr>dtype_of = Int_dtype, array_of = \<lparr>shape = [1, 1, 2], data = [5, 6 :: int]\<rparr>\<rparr>"
  have h: "\<exists>a \<in> set [?A, ?B]. 2 < ndim (array_of a)" by (simp add: ndim_def)
  have "filter (\<lambda>k. 2 < ndim (array_of ([?A, ?B] ! k))) [0..<length [?A, ?B]] = [1]"
    by (simp add: ndim_def upt_conv_Cons)
  then show ?thesis
    using block_diag_raises_iff [of astype_int "[?A, ?B]", THEN conjunct2, rule_format, OF h]
    by simp
qed

lemma mask_partition_finite:
  fixes t xs :: "('a::linordered_idom) ieee list"
  assumes "length t = length xs" "\<And>b. b \<in> set t \<Longrightarrow> b = 0 \<or> b = 1"
    and "\<And>x. x \<in> set xs \<Longrightarrow> \<exists>a. x = Finite a"
  shows "map2 (+) (map2 (*) t xs) (map2 (*) (map (\<lambda>v. 1 - v) t) xs) = xs"
  using assms
proof (induction t xs rule: list_induct2)
  case Nil
  then show ?case by simp
next
  case (Cons b t x xs)
  obtain a where x: "x = Finite a" using Cons.prems(2) [of x] by auto
  have "b = 0 \<or> b = 1" using Cons.prems(1) by simp
  then have "b * x + (1 - b) * x = x"
    by (auto simp add: x zero_ieee_def one_ieee_def minus_ieee_def)
  moreover have "map2 (+) (map2 (*) t xs) (map2 (*) (map (\<lambda>v. 1 - v) t) xs) = xs"
    using Cons.IH Cons.prems by simp
  ultimately show ?case by simp
qed

text \<open>
  On a float array whose elements are all finite the sum is \<open>m\<close> as well.
\<close>

lemma tril_triu_partition_finite:
  fixes m :: "('a::linordered_idom) ieee ndarray"
  assumes "shape m = [n, c]" "wf m" "\<And>x. x \<in> set (data m) \<Longrightarrow> \<exists>a. x = Finite a"
  shows "\<exists>L U. tril m 0 = Inr L \<and> triu m 1 = Inr U \<and> add L U = Inr m"
proof -
  let ?Ta = "tri (int n) (M_int (int c)) 0 (Some ()) :: 'a ieee ndarray"
  let ?L = "\<lparr>shape = [n, c], data = map2 (*) (data ?Ta) (data m)\<rparr>"
  let ?U = "\<lparr>shape = [n, c], data = map2 (*) (map (\<lambda>v. 1 - v) (data ?Ta)) (data m)\<rparr>"
  have lenm: "length (data m) = n * c" using assms(1,2) by (simp add: wf_def)
  have len0: "length (data ?Ta) = n * c" by (simp add: tri_length)
  have L: "tril m 0 = Inr ?L" using assms(1,2) by (rule tril_2d)
  have U: "triu m 1 = Inr ?U" using triu_2d [OF assms(1,2), where k = 1] by simp
  have wfL: "wf ?L" and wfU: "wf ?U" using lenm len0 by (simp_all add: wf_def)
  have "add ?L ?U = Inr \<lparr>shape = shape ?L, data = map2 (+) (data ?L) (data ?U)\<rparr>"
    unfolding add_def using wfL wfU by (rule binop_same_shape) simp
  moreover have "map2 (+) (data ?L) (data ?U) = data m"
  proof -
    have "map2 (+) (map2 (*) (data ?Ta) (data m))
            (map2 (*) (map (\<lambda>v. 1 - v) (data ?Ta)) (data m)) = data m"
    proof (rule mask_partition_finite)
      show "length (data ?Ta) = length (data m)" using lenm len0 by simp
      show "\<And>b. b \<in> set (data ?Ta) \<Longrightarrow> b = 0 \<or> b = 1" by (rule tri_bits)
      show "\<And>x. x \<in> set (data m) \<Longrightarrow> \<exists>a. x = Finite a" by (rule assms(3))
    qed
    then show ?thesis by simp
  qed
  ultimately have "add ?L ?U = Inr m" using assms(1) by simp
  then show ?thesis using L U by blast
qed

text \<open>
  C10. The claim is that for every two-dimensional numeric array \<open>m\<close>,
  \<^verbatim>\<open>tril(m, 0) + triu(m, 1) == m\<close> element for element, and that \<^verbatim>\<open>tril(m, 0)\<close> and
  \<^verbatim>\<open>triu(m, 0)\<close> both keep the main diagonal. The code does so on integer arrays and on
  float arrays of finite elements. But it zeroes an element by multiplying it with the 0
  of the mask, and \<open>0 * inf\<close> is \<open>nan\<close>: for the float array \<open>m = [[1, inf], [3, 4]]\<close>,
  \<^verbatim>\<open>tril(m, 0)\<close> is \<open>[[1, nan], [3, 4]]\<close> where the docstring promises the element above the
  diagonal zeroed, and the sum with \<^verbatim>\<open>triu(m, 1)\<close> \<open>= [[0, inf], [0, 0]]\<close> has \<open>nan\<close> at
  \<open>[0, 1]\<close>, where \<open>m\<close> has \<open>inf\<close>. Likewise \<^verbatim>\<open>triu([[inf]], 1)\<close> is \<open>[[nan]]\<close>.
\<close>

theorem tril_triu_inf:
  "tril \<lparr>shape = [2, 2], data = [Finite 1, PosInf, Finite 3, Finite (4 :: int)]\<rparr> 0
     = Inr \<lparr>shape = [2, 2], data = [Finite 1, NaN, Finite 3, Finite 4]\<rparr> \<and>
   triu \<lparr>shape = [2, 2], data = [Finite 1, PosInf, Finite 3, Finite (4 :: int)]\<rparr> 1
     = Inr \<lparr>shape = [2, 2], data = [Finite 0, PosInf, Finite 0, Finite 0]\<rparr> \<and>
   add \<lparr>shape = [2, 2], data = [Finite 1, NaN, Finite 3, Finite (4 :: int)]\<rparr>
       \<lparr>shape = [2, 2], data = [Finite 0, PosInf, Finite 0, Finite 0]\<rparr>
     = Inr \<lparr>shape = [2, 2], data = [Finite 1, NaN, Finite 3, Finite 4]\<rparr> \<and>
   item \<lparr>shape = [2, 2], data = [Finite 1, NaN, Finite 3, Finite (4 :: int)]\<rparr> 0 1
     \<noteq> item \<lparr>shape = [2, 2], data = [Finite 1, PosInf, Finite 3, Finite (4 :: int)]\<rparr> 0 1 \<and>
   triu \<lparr>shape = [1, 1], data = [PosInf :: int ieee]\<rparr> 1 = Inr \<lparr>shape = [1, 1], data = [NaN]\<rparr>"
  by code_simp

end
